theory Spec2Isabelle
  imports Complex_Main "HOL-Library.Multiset" "HOL-Library.Product_Lexorder"
begin

section \<open>Data model\<close>

text \<open>
  The three namedtuples of the source. Field names carry a prefix, since the source reuses
  \<open>l\<close>, \<open>w\<close>, \<open>h\<close> in all three. All numeric fields are Python integers
  (\<open>parse_box_string\<close> builds them with \<open>int\<close>, \<open>generate_containers\<close> from a
  \<open>range\<close>), hence \<open>int\<close>.
\<close>

record box =
  box_name :: string
  box_l :: int
  box_w :: int
  box_h :: int
  box_weight :: int
  box_volume :: int
  box_color_hex :: string

record container =
  con_l :: int
  con_w :: int
  con_h :: int
  con_volume :: int

record placed_box =
  pb_box :: box
  pb_x :: int
  pb_y :: int
  pb_z :: int
  pb_l :: int
  pb_w :: int
  pb_h :: int

section \<open>Packing logic\<close>

subsection \<open>check_overlap\<close>

text \<open>
  The loop over \<open>placed_boxes\<close> returns \<open>True\<close> at the first placed box for which none of
  the three per-axis separation tests holds, and \<open>False\<close> when the list is exhausted.
\<close>

fun check_overlap :: "placed_box list \<Rightarrow> int \<Rightarrow> int \<Rightarrow> int \<Rightarrow> int \<Rightarrow> int \<Rightarrow> int \<Rightarrow> bool" where
  "check_overlap [] x y z l w h = False"
| "check_overlap (p_box # placed_boxes) x y z l w h =
     (let b1_x1 = x; b1_y1 = y; b1_z1 = z;
          b1_x2 = x + l; b1_y2 = y + w; b1_z2 = z + h;
          b2_x1 = pb_x p_box; b2_y1 = pb_y p_box; b2_z1 = pb_z p_box;
          b2_x2 = pb_x p_box + pb_l p_box;
          b2_y2 = pb_y p_box + pb_w p_box;
          b2_z2 = pb_z p_box + pb_h p_box;
          no_overlap_x = (b1_x2 \<le> b2_x1 \<or> b1_x1 \<ge> b2_x2);
          no_overlap_y = (b1_y2 \<le> b2_y1 \<or> b1_y1 \<ge> b2_y2);
          no_overlap_z = (b1_z2 \<le> b2_z1 \<or> b1_z1 \<ge> b2_z2)
      in if \<not> (no_overlap_x \<or> no_overlap_y \<or> no_overlap_z) then True
         else check_overlap placed_boxes x y z l w h)"

subsection \<open>pack_recursive_helper\<close>

text \<open>
  A \<open>for\<close> loop whose body may return a value: the first element of the list for which the
  body yields a result decides, otherwise the loop falls through.
\<close>

fun first_some :: "('a \<Rightarrow> 'b option) \<Rightarrow> 'a list \<Rightarrow> 'b option" where
  "first_some f [] = None"
| "first_some f (a # as) =
     (case f a of Some r \<Rightarrow> Some r | None \<Rightarrow> first_some f as)"

lemma first_some_cong [fundef_cong]:
  "xs = ys \<Longrightarrow> (\<And>a. a \<in> set ys \<Longrightarrow> f a = g a) \<Longrightarrow> first_some f xs = first_some g ys"
  by (induction ys arbitrary: xs) (auto split: option.splits)

text \<open>
  \<open>anchor_points\<close>: the container origin, then three corners per placed box.
  \<open>unique_anchors = sorted(list(set(anchor_points)))\<close> is the duplicate-free list in
  ascending lexicographic order of the triples.
\<close>

definition anchor_points :: "placed_box list \<Rightarrow> (int \<times> int \<times> int) list" where
  "anchor_points placed_boxes =
     (0, 0, 0) #
     concat (map (\<lambda>p. [(pb_x p + pb_l p, pb_y p, pb_z p),
                        (pb_x p, pb_y p + pb_w p, pb_z p),
                        (pb_x p, pb_y p, pb_z p + pb_h p)]) placed_boxes)"

definition unique_anchors :: "placed_box list \<Rightarrow> (int \<times> int \<times> int) list" where
  "unique_anchors placed_boxes = sort (remdups (anchor_points placed_boxes))"

text \<open>
  \<open>set(itertools.permutations(dims))\<close>: the distinct orderings of the three dimensions.
  \<open>itertools.permutations\<close> yields them in the order listed below; the order in which
  Python then iterates over the resulting set is left open by the language, and the model
  fixes first-occurrence order. The proofs below use only which orientations the list
  holds, never their order.
\<close>

definition permutations3 :: "int \<times> int \<times> int \<Rightarrow> (int \<times> int \<times> int) list" where
  "permutations3 dims = (case dims of (a, b, c) \<Rightarrow>
     [(a, b, c), (a, c, b), (b, a, c), (b, c, a), (c, a, b), (c, b, a)])"

definition rotations :: "box \<Rightarrow> (int \<times> int \<times> int) list" where
  "rotations b = remdups (permutations3 (box_l b, box_w b, box_h b))"

fun pack_recursive_helper ::
  "box list \<Rightarrow> container \<Rightarrow> placed_box list \<Rightarrow> placed_box list option" where
  "pack_recursive_helper [] container placed_boxes = Some placed_boxes"
| "pack_recursive_helper (box_to_place # remaining_boxes) container placed_boxes =
     first_some (\<lambda>(ax, ay, az).
       first_some (\<lambda>(l, w, h).
         if ax + l > con_l container \<or> ay + w > con_w container \<or> az + h > con_h container
         then None
         else if check_overlap placed_boxes ax ay az l w h then None
         else
           (let new_placed_box =
                  \<lparr>pb_box = box_to_place, pb_x = ax, pb_y = ay, pb_z = az,
                   pb_l = l, pb_w = w, pb_h = h\<rparr>;
                new_placed_list = placed_boxes @ [new_placed_box]
            in pack_recursive_helper remaining_boxes container new_placed_list))
         (rotations box_to_place))
       (unique_anchors placed_boxes)"

subsection \<open>check_fit\<close>

text \<open>
  \<open>sorted(boxes_to_pack, key=lambda b: b.volume, reverse=True)\<close> is a stable sort by
  descending volume: boxes of equal volume keep their input order. \<open>sort_key\<close> is a stable
  insertion sort, and negating the key reverses the order of the keys only.
\<close>

definition sorted_boxes :: "box list \<Rightarrow> box list" where
  "sorted_boxes boxes_to_pack = sort_key (\<lambda>b. - box_volume b) boxes_to_pack"

definition can_fit_at_all :: "box \<Rightarrow> container \<Rightarrow> bool" where
  "can_fit_at_all b container =
     list_ex (\<lambda>(l, w, h). l \<le> con_l container \<and> w \<le> con_w container \<and> h \<le> con_h container)
       (rotations b)"

definition check_fit :: "box list \<Rightarrow> container \<Rightarrow> placed_box list option" where
  "check_fit boxes_to_pack container =
     (if list_ex (\<lambda>b. \<not> can_fit_at_all b container) (sorted_boxes boxes_to_pack) then None
      else pack_recursive_helper (sorted_boxes boxes_to_pack) container [])"

text \<open>
  The same function, also reporting whether the recursive placement search was started.
\<close>

definition check_fit_traced :: "box list \<Rightarrow> container \<Rightarrow> placed_box list option \<times> bool" where
  "check_fit_traced boxes_to_pack container =
     (if list_ex (\<lambda>b. \<not> can_fit_at_all b container) (sorted_boxes boxes_to_pack)
      then (None, False)
      else (pack_recursive_helper (sorted_boxes boxes_to_pack) container [], True))"

section \<open>Container generation\<close>

text \<open>
  \<open>range(start, stop, step)\<close> for a positive step. \<open>generate_containers\<close> returns before
  building the range when \<open>increment \<le> 0\<close>, so no other step reaches it.
\<close>

function py_range :: "int \<Rightarrow> int \<Rightarrow> int \<Rightarrow> int list" where
  "py_range start stop step =
     (if 0 < step \<and> start < stop then start # py_range (start + step) stop step else [])"
  by pat_completeness auto
termination
  by (relation "measure (\<lambda>(start, stop, step). nat (stop - start))") auto

text \<open>\<open>tuple(sorted([l, w, h]))\<close>, read through \<open>d[0]\<close>, \<open>d[1]\<close>, \<open>d[2]\<close>.\<close>

definition sorted_dims :: "int \<Rightarrow> int \<Rightarrow> int \<Rightarrow> int \<times> int \<times> int" where
  "sorted_dims l w h = (let d = sort [l, w, h] in (d ! 0, d ! 1, d ! 2))"

text \<open>
  The innermost loop over \<open>h\<close>, with its \<open>break\<close> at the first \<open>h\<close> whose sum exceeds
  \<open>total_sum\<close>. \<open>valid_containers\<close> is the Python set being filled.
\<close>

fun h_loop ::
  "int \<Rightarrow> int \<Rightarrow> int \<Rightarrow> int list \<Rightarrow> (int \<times> int \<times> int) set \<Rightarrow> (int \<times> int \<times> int) set" where
  "h_loop total_sum l w [] valid_containers = valid_containers"
| "h_loop total_sum l w (h # hs) valid_containers =
     (if l + w + h \<le> total_sum
      then h_loop total_sum l w hs (insert (sorted_dims l w h) valid_containers)
      else valid_containers)"

definition container_of :: "int \<times> int \<times> int \<Rightarrow> container" where
  "container_of d = (case d of (d0, d1, d2) \<Rightarrow>
     \<lparr>con_l = d0, con_w = d1, con_h = d2, con_volume = d0 * d1 * d2\<rparr>)"

text \<open>
  The \<open>self\<close> parameter is unused (the caller passes \<open>None\<close>) and is dropped. The final list
  comprehension iterates over a Python set, whose order the language leaves open; the model
  lists the triples in ascending order. The claims about this function concern the
  collection as a set.
\<close>

definition generate_containers :: "int \<Rightarrow> int \<Rightarrow> int \<Rightarrow> int \<Rightarrow> container list" where
  "generate_containers total_sum max_dim min_dim increment =
     (if increment \<le> 0 then []
      else
        (let valid_steps = py_range min_dim (max_dim + 1) increment;
             valid_containers =
               fold (\<lambda>l. fold (\<lambda>w. h_loop total_sum l w valid_steps) valid_steps)
                 valid_steps {}
         in map container_of (sorted_list_of_set valid_containers)))"

text \<open>
  The naive triple loop of the specification: every \<open>(l, w, h)\<close> is tested, and the scan of
  \<open>h\<close> never stops early.
\<close>

definition generate_containers_naive :: "int \<Rightarrow> int \<Rightarrow> int \<Rightarrow> int \<Rightarrow> container list" where
  "generate_containers_naive total_sum max_dim min_dim increment =
     (if increment \<le> 0 then []
      else
        (let valid_steps = py_range min_dim (max_dim + 1) increment;
             valid_containers =
               fold (\<lambda>l. fold (\<lambda>w. fold (\<lambda>h vc.
                   if l + w + h \<le> total_sum then insert (sorted_dims l w h) vc else vc)
                 valid_steps) valid_steps) valid_steps {}
         in map container_of (sorted_list_of_set valid_containers)))"

text \<open>
  The arithmetic progression of the specification: \<open>min_dim\<close>, \<open>min_dim + increment\<close>, ...,
  capped at \<open>max_dim\<close>.
\<close>

definition progression :: "int \<Rightarrow> int \<Rightarrow> int \<Rightarrow> int set" where
  "progression min_dim max_dim increment =
     {v. \<exists>i::nat. v = min_dim + int i * increment \<and> v \<le> max_dim}"

section \<open>Combination search\<close>

text \<open>
  \<open>max_weight = float(...)\<close>: a Python float is a finite value, an infinity or NaN. Python
  compares an integer with a float exactly, so \<open>total_weight > max_weight\<close> is the
  comparison of the mathematical values, false against NaN.
\<close>

datatype pyfloat = Finite real | PosInf | NegInf | NaN

fun int_gt_float :: "int \<Rightarrow> pyfloat \<Rightarrow> bool" where
  "int_gt_float i (Finite r) = (r < of_int i)"
| "int_gt_float i PosInf = False"
| "int_gt_float i NegInf = True"
| "int_gt_float i NaN = False"

text \<open>The lines written by \<open>self.log\<close>, one constructor per message, with the values
  interpolated into it.\<close>

datatype log_msg =
    Starting_packing
  | Error_invalid_numeric
  | Error_no_containers
  | Error_could_not_parse string
  | Error_need_two_boxes
  | Checking_boxes nat nat
  | Separator
  | Checking_combinations nat
  | Found_fit nat
  | Container_line int int int
  | Search_complete nat

text \<open>
  One row of the input form: the name, the dimension text and the colour. \<open>entry_match\<close> is
  the outcome of the regular-expression search that \<open>parse_box_string\<close> runs on the text:
  \<open>None\<close> when nothing matches, otherwise the numbers written by the four groups of digits.
  The matching itself is outside the model.
\<close>

record box_entry =
  entry_name :: string
  entry_dims :: string
  entry_color :: string
  entry_match :: "(nat \<times> nat \<times> nat \<times> nat) option"

text \<open>
  \<open>parse_box_string\<close> from the match on: each group is a run of digits, so \<open>int\<close> of it is
  a natural number and cannot raise; the volume is the product of the three dimensions.
\<close>

definition parse_box_string ::
  "(nat \<times> nat \<times> nat \<times> nat) option \<Rightarrow> string \<Rightarrow> string \<Rightarrow> box option" where
  "parse_box_string match name color_hex =
     (case match of
        None \<Rightarrow> None
      | Some (g1, g2, g3, g4) \<Rightarrow>
          (let l = int g1; w = int g2; h = int g3; weight = int g4; volume = l * w * h
           in Some \<lparr>box_name = name, box_l = l, box_w = w, box_h = h, box_weight = weight,
                    box_volume = volume, box_color_hex = color_hex\<rparr>))"

text \<open>
  An element of \<open>self.successful_fits\<close>. The \<open>'name'\<close> string
  \<open>"Fit #n: (names) in LxWxH"\<close> is kept as the values it is formatted from.
\<close>

record fit =
  fit_number :: nat
  fit_box_names :: "string list"
  fit_container :: container
  fit_boxes :: "placed_box list"

text \<open>
  The state that \<open>run_packing\<close> updates: the log, \<open>self.successful_fits\<close> and the counter
  \<open>found_solutions\<close>. \<open>fit_calls\<close> is an observer added by the model: the arguments of every
  call of \<open>check_fit\<close>, in order.
\<close>

record run_state =
  log :: "log_msg list"
  successful_fits :: "fit list"
  found_solutions :: nat
  fit_calls :: "(box list \<times> container) list"

text \<open>\<open>itertools.combinations(xs, k)\<close>: the \<open>k\<close>-element subsequences by position, in
  lexicographic order of the positions.\<close>

fun combinations :: "'a list \<Rightarrow> nat \<Rightarrow> 'a list list" where
  "combinations xs 0 = [[]]"
| "combinations [] (Suc k) = []"
| "combinations (x # xs) (Suc k) =
     map ((#) x) (combinations xs k) @ combinations xs (Suc k)"

text \<open>
  \<open>for container in self.containers\<close>, for one combination: skip a container that is too
  small in volume, otherwise call \<open>check_fit\<close>; on a placement record the fit and
  \<open>break\<close>.
\<close>

fun container_loop :: "box list \<Rightarrow> int \<Rightarrow> container list \<Rightarrow> run_state \<Rightarrow> run_state" where
  "container_loop box_combination total_volume [] st = st"
| "container_loop box_combination total_volume (c # cs) st =
     (if total_volume > con_volume c then container_loop box_combination total_volume cs st
      else
        (let st1 = st\<lparr>fit_calls := fit_calls st @ [(box_combination, c)]\<rparr>
         in case check_fit box_combination c of
              None \<Rightarrow> container_loop box_combination total_volume cs st1
            | Some placed_boxes_list \<Rightarrow>
                (let n = found_solutions st1 + 1
                 in st1\<lparr>found_solutions := n,
                        log := log st1 @ [Found_fit n, Container_line (con_l c) (con_w c) (con_h c)],
                        successful_fits := successful_fits st1 @
                          [\<lparr>fit_number = n,
                            fit_box_names = map box_name box_combination,
                            fit_container = c,
                            fit_boxes = placed_boxes_list\<rparr>]\<rparr>)))"

text \<open>The body of \<open>for box_combination in itertools.combinations(input_boxes, k)\<close>.\<close>

definition try_combination ::
  "container list \<Rightarrow> pyfloat \<Rightarrow> box list \<Rightarrow> run_state \<Rightarrow> run_state" where
  "try_combination containers max_weight box_combination st =
     (let total_weight = sum_list (map box_weight box_combination)
      in if int_gt_float total_weight max_weight then st
         else
           (let total_volume = sum_list (map box_volume box_combination)
            in container_loop box_combination total_volume containers st))"

text \<open>The body of \<open>for k in range(2, len(input_boxes) + 1)\<close>.\<close>

definition k_step ::
  "container list \<Rightarrow> pyfloat \<Rightarrow> box list \<Rightarrow> nat \<Rightarrow> run_state \<Rightarrow> run_state" where
  "k_step containers max_weight input_boxes k st =
     fold (try_combination containers max_weight) (combinations input_boxes k)
       (st\<lparr>log := log st @ [Checking_combinations k]\<rparr>)"

definition search_loops ::
  "container list \<Rightarrow> pyfloat \<Rightarrow> box list \<Rightarrow> run_state \<Rightarrow> run_state" where
  "search_loops containers max_weight input_boxes st =
     fold (k_step containers max_weight input_boxes) [2 ..< length input_boxes + 1] st"

text \<open>The loop over \<open>self.box_entries\<close> that collects \<open>input_boxes\<close>.\<close>

fun collect_boxes :: "box_entry list \<Rightarrow> box list \<times> log_msg list \<Rightarrow> box list \<times> log_msg list" where
  "collect_boxes [] acc = acc"
| "collect_boxes (entry # entries) (input_boxes, lg) =
     (if entry_dims entry \<noteq> []
      then (case parse_box_string (entry_match entry) (entry_name entry) (entry_color entry) of
              Some b \<Rightarrow> collect_boxes entries (input_boxes @ [b], lg)
            | None \<Rightarrow>
                collect_boxes entries (input_boxes, lg @ [Error_could_not_parse (entry_name entry)]))
      else collect_boxes entries (input_boxes, lg))"

text \<open>
  \<open>run_packing\<close>. \<open>rules\<close> is \<open>None\<close> when reading one of the five rule fields raises
  \<open>ValueError\<close>, otherwise \<open>(total_sum, max_dim, min_dim, increment, max_weight)\<close>. The
  widget updates are not part of the model.
\<close>

definition run_packing ::
  "(int \<times> int \<times> int \<times> int \<times> pyfloat) option \<Rightarrow> box_entry list \<Rightarrow> run_state" where
  "run_packing rules box_entries =
     (let st0 = \<lparr>log = [Starting_packing], successful_fits = [], found_solutions = 0,
                 fit_calls = []\<rparr>
      in case rules of
           None \<Rightarrow> st0\<lparr>log := log st0 @ [Error_invalid_numeric]\<rparr>
         | Some (total_sum, max_dim, min_dim, increment, max_weight) \<Rightarrow>
             (let containers = generate_containers total_sum max_dim min_dim increment
              in if containers = [] then st0\<lparr>log := log st0 @ [Error_no_containers]\<rparr>
                 else
                   (case collect_boxes box_entries ([], log st0) of (input_boxes, lg) \<Rightarrow>
                      if length input_boxes < 2
                      then st0\<lparr>log := lg @ [Error_need_two_boxes]\<rparr>
                      else
                        (let st1 = st0\<lparr>log := lg @
                                     [Checking_boxes (length input_boxes) (length containers),
                                      Separator]\<rparr>;
                             st2 = search_loops containers max_weight input_boxes st1
                         in st2\<lparr>log := log st2 @
                                  [Separator, Search_complete (found_solutions st2)]\<rparr>))))"

section \<open>Notions used in the properties\<close>

subsection \<open>Geometry of a placement\<close>

text \<open>
  Two intervals \<open>[a1, a2]\<close> and \<open>[b1, b2]\<close> intersect in positive length when the larger
  lower end lies strictly below the smaller upper end. Two placed boxes share positive
  volume when their extents do so on all three axes at once.
\<close>

definition intervals_overlap :: "int \<Rightarrow> int \<Rightarrow> int \<Rightarrow> int \<Rightarrow> bool" where
  "intervals_overlap a1 a2 b1 b2 = (max a1 b1 < min a2 b2)"

definition positive_volume_overlap :: "placed_box \<Rightarrow> placed_box \<Rightarrow> bool" where
  "positive_volume_overlap p q =
     (intervals_overlap (pb_x p) (pb_x p + pb_l p) (pb_x q) (pb_x q + pb_l q) \<and>
      intervals_overlap (pb_y p) (pb_y p + pb_w p) (pb_y q) (pb_y q + pb_w q) \<and>
      intervals_overlap (pb_z p) (pb_z p + pb_h p) (pb_z q) (pb_z q + pb_h q))"

text \<open>
  The candidate box at \<open>(x, y, z)\<close> with extent \<open>(l, w, h)\<close> and the placed box \<open>p\<close> share a
  boundary coordinate on some axis: one ends where the other begins.
\<close>

definition touches :: "placed_box \<Rightarrow> int \<Rightarrow> int \<Rightarrow> int \<Rightarrow> int \<Rightarrow> int \<Rightarrow> int \<Rightarrow> bool" where
  "touches p x y z l w h =
     (x + l = pb_x p \<or> pb_x p + pb_l p = x \<or>
      y + w = pb_y p \<or> pb_y p + pb_w p = y \<or>
      z + h = pb_z p \<or> pb_z p + pb_h p = z)"

definition inside_container :: "container \<Rightarrow> placed_box \<Rightarrow> bool" where
  "inside_container c p =
     (0 \<le> pb_x p \<and> 0 \<le> pb_y p \<and> 0 \<le> pb_z p \<and>
      pb_x p + pb_l p \<le> con_l c \<and> pb_y p + pb_w p \<le> con_w c \<and> pb_z p + pb_h p \<le> con_h c)"

text \<open>
  The data model gives every item three positive dimensions, and \<open>parse_box_string\<close> reads
  each dimension from a run of digits. The weaker condition below is all that the
  containment property needs.
\<close>

definition nonneg_dims :: "box \<Rightarrow> bool" where
  "nonneg_dims b = (0 \<le> box_l b \<and> 0 \<le> box_w b \<and> 0 \<le> box_h b)"

subsection \<open>Container generation\<close>

text \<open>The triples that a complete scan of \<open>hs\<close> records for one pair \<open>(l, w)\<close>, and for all
  pairs drawn from \<open>steps\<close>.\<close>

definition admitted :: "int \<Rightarrow> int \<Rightarrow> int \<Rightarrow> int list \<Rightarrow> (int \<times> int \<times> int) set" where
  "admitted total_sum l w hs = {sorted_dims l w h | h. h \<in> set hs \<and> l + w + h \<le> total_sum}"

definition all_admitted :: "int \<Rightarrow> int list \<Rightarrow> (int \<times> int \<times> int) set" where
  "all_admitted total_sum steps = (\<Union>l \<in> set steps. \<Union>w \<in> set steps. admitted total_sum l w steps)"

definition dims_of :: "container \<Rightarrow> int list" where
  "dims_of c = [con_l c, con_w c, con_h c]"

subsection \<open>The search, as the specification words it\<close>

definition total_weight :: "box list \<Rightarrow> int" where
  "total_weight comb = sum_list (map box_weight comb)"

definition total_volume :: "box list \<Rightarrow> int" where
  "total_volume comb = sum_list (map box_volume comb)"

text \<open>A container survives the volume filter for a subset and the placement engine finds a
  placement in it.\<close>

definition yields_placement :: "box list \<Rightarrow> container \<Rightarrow> bool" where
  "yields_placement comb c = (total_volume comb \<le> con_volume c \<and> check_fit comb c \<noteq> None)"

text \<open>First fit over the containers: the first container of the list that yields a
  placement, with that placement.\<close>

definition first_fit :: "container list \<Rightarrow> box list \<Rightarrow> (container \<times> placed_box list) option" where
  "first_fit containers comb =
     (case List.find (yields_placement comb) containers of
        None \<Rightarrow> None
      | Some c \<Rightarrow> map_option (Pair c) (check_fit comb c))"

text \<open>
  The containers on which the placement engine is invoked for a subset: those of sufficient
  volume that precede the first container yielding a placement, then that container itself,
  and nothing after it.
\<close>

definition engine_calls :: "container list \<Rightarrow> box list \<Rightarrow> container list" where
  "engine_calls containers comb =
     filter (\<lambda>c. total_volume comb \<le> con_volume c)
       (takeWhile (\<lambda>c. \<not> yields_placement comb c) containers) @
     (case List.find (yields_placement comb) containers of None \<Rightarrow> [] | Some c \<Rightarrow> [c])"

text \<open>The subsets that end in a solution, in enumeration order, each with its container and
  placement; and the engine invocations of the whole enumeration.\<close>

definition accepted ::
  "container list \<Rightarrow> pyfloat \<Rightarrow> box list list \<Rightarrow> (box list \<times> container \<times> placed_box list) list" where
  "accepted containers max_weight combs =
     List.map_filter (\<lambda>comb.
        if int_gt_float (total_weight comb) max_weight then None
        else map_option (Pair comb) (first_fit containers comb)) combs"

definition attempted ::
  "container list \<Rightarrow> pyfloat \<Rightarrow> box list list \<Rightarrow> (box list \<times> container) list" where
  "attempted containers max_weight combs =
     concat (map (\<lambda>comb.
        if int_gt_float (total_weight comb) max_weight then []
        else map (Pair comb) (engine_calls containers comb)) combs)"

text \<open>Solutions are numbered consecutively as they are found.\<close>

fun number_fits :: "nat \<Rightarrow> (box list \<times> container \<times> placed_box list) list \<Rightarrow> fit list" where
  "number_fits n [] = []"
| "number_fits n ((comb, c, ps) # rest) =
     \<lparr>fit_number = n + 1, fit_box_names = map box_name comb, fit_container = c, fit_boxes = ps\<rparr>
     # number_fits (n + 1) rest"

text \<open>Every subset the search enumerates: sizes 2 up to the item count, ascending.\<close>

definition all_combinations :: "'a list \<Rightarrow> 'a list list" where
  "all_combinations xs = concat (map (combinations xs) [2 ..< length xs + 1])"

text \<open>The valid items of the form: rows with a non-empty text that parses.\<close>

definition valid_boxes :: "box_entry list \<Rightarrow> box list" where
  "valid_boxes entries =
     List.map_filter (\<lambda>e.
        if entry_dims e \<noteq> []
        then parse_box_string (entry_match e) (entry_name e) (entry_color e)
        else None) entries"

subsection \<open>Concrete scenarios\<close>

text \<open>
  The placement scenario of the specification: a cube of side 300 and two cubic items of
  sides 100 and 200; and an item too long for that container in every orientation.
\<close>

definition item_A :: box where
  "item_A = \<lparr>box_name = ''A'', box_l = 100, box_w = 100, box_h = 100, box_weight = 1,
              box_volume = 1000000, box_color_hex = ''#FF7F50''\<rparr>"

definition item_B :: box where
  "item_B = \<lparr>box_name = ''B'', box_l = 200, box_w = 200, box_h = 200, box_weight = 1,
              box_volume = 8000000, box_color_hex = ''#FFD700''\<rparr>"

definition item_long :: box where
  "item_long = \<lparr>box_name = ''long'', box_l = 400, box_w = 100, box_h = 100, box_weight = 1,
              box_volume = 4000000, box_color_hex = ''#ADFF2F''\<rparr>"

definition cube_300 :: container where
  "cube_300 = \<lparr>con_l = 300, con_w = 300, con_h = 300, con_volume = 27000000\<rparr>"

definition placed_B :: placed_box where
  "placed_B = \<lparr>pb_box = item_B, pb_x = 0, pb_y = 0, pb_z = 0, pb_l = 200, pb_w = 200, pb_h = 200\<rparr>"

definition placed_A :: placed_box where
  "placed_A = \<lparr>pb_box = item_A, pb_x = 0, pb_y = 0, pb_z = 200, pb_l = 100, pb_w = 100, pb_h = 100\<rparr>"

definition form_AB :: "box_entry list" where
  "form_AB = [\<lparr>entry_name = ''A'', entry_dims = ''100x100x100/1'',
                entry_color = ''#FF7F50'', entry_match = Some (100, 100, 100, 1)\<rparr>,
              \<lparr>entry_name = ''B'', entry_dims = ''200x200x200/1'',
                entry_color = ''#FFD700'', entry_match = Some (200, 200, 200, 1)\<rparr>]"

text \<open>Two items with negative sides, which the data model excludes and the form cannot
  produce.\<close>

definition cube_minus_3 :: box where
  "cube_minus_3 = \<lparr>box_name = ''minus 3'', box_l = - 3, box_w = - 3, box_h = - 3, box_weight = 1,
              box_volume = - 27, box_color_hex = ''#00FFFF''\<rparr>"

definition cube_minus_5 :: box where
  "cube_minus_5 = \<lparr>box_name = ''minus 5'', box_l = - 5, box_w = - 5, box_h = - 5, box_weight = 1,
              box_volume = - 125, box_color_hex = ''#1E90FF''\<rparr>"

text \<open>Containers for a first-fit scenario, and a search state with nothing recorded.\<close>

definition tiny_100 :: container where
  "tiny_100 = \<lparr>con_l = 100, con_w = 100, con_h = 100, con_volume = 1000000\<rparr>"

definition flat_150 :: container where
  "flat_150 = \<lparr>con_l = 150, con_w = 300, con_h = 300, con_volume = 13500000\<rparr>"

definition cube_400 :: container where
  "cube_400 = \<lparr>con_l = 400, con_w = 400, con_h = 400, con_volume = 64000000\<rparr>"

definition empty_state :: run_state where
  "empty_state = \<lparr>log = [], successful_fits = [], found_solutions = 0, fit_calls = []\<rparr>"

section \<open>Auxiliary facts\<close>

subsection \<open>The placement search\<close>

lemma first_some_SomeD:
  "first_some f xs = Some r \<Longrightarrow> \<exists>a \<in> set xs. f a = Some r"
  by (induction xs) (auto split: option.splits)

lemma check_overlap_iff:
  "check_overlap ps x y z l w h =
     (\<exists>p \<in> set ps. pb_x p < x + l \<and> x < pb_x p + pb_l p \<and>
                     pb_y p < y + w \<and> y < pb_y p + pb_w p \<and>
                     pb_z p < z + h \<and> z < pb_z p + pb_h p)"
  by (induction ps) (auto simp: Let_def)

lemma pack_recursive_helper_ConsD:
  assumes "pack_recursive_helper (b # rest) c placed = Some ps"
  shows "\<exists>ax ay az l w h.
      (ax, ay, az) \<in> set (unique_anchors placed) \<and> (l, w, h) \<in> set (rotations b) \<and>
      ax + l \<le> con_l c \<and> ay + w \<le> con_w c \<and> az + h \<le> con_h c \<and>
      \<not> check_overlap placed ax ay az l w h \<and>
      pack_recursive_helper rest c
        (placed @ [\<lparr>pb_box = b, pb_x = ax, pb_y = ay, pb_z = az,
                      pb_l = l, pb_w = w, pb_h = h\<rparr>]) = Some ps"
proof -
  from assms obtain a where a: "a \<in> set (unique_anchors placed)"
    and inner: "(case a of (ax, ay, az) \<Rightarrow>
       first_some (\<lambda>(l, w, h).
         if ax + l > con_l c \<or> ay + w > con_w c \<or> az + h > con_h c
         then None
         else if check_overlap placed ax ay az l w h then None
         else pack_recursive_helper rest c
                (placed @ [\<lparr>pb_box = b, pb_x = ax, pb_y = ay, pb_z = az,
                   pb_l = l, pb_w = w, pb_h = h\<rparr>]))
         (rotations b)) = Some ps"
    unfolding pack_recursive_helper.simps Let_def by (blast dest: first_some_SomeD)
  obtain ax ay az where a_eq: "a = (ax, ay, az)" by (cases a) auto
  from inner obtain r where r: "r \<in> set (rotations b)"
    and body: "(case r of (l, w, h) \<Rightarrow>
         if ax + l > con_l c \<or> ay + w > con_w c \<or> az + h > con_h c
         then None
         else if check_overlap placed ax ay az l w h then None
         else pack_recursive_helper rest c
                (placed @ [\<lparr>pb_box = b, pb_x = ax, pb_y = ay, pb_z = az,
                   pb_l = l, pb_w = w, pb_h = h\<rparr>])) = Some ps"
    unfolding a_eq prod.case by (blast dest: first_some_SomeD)
  obtain l w h where r_eq: "r = (l, w, h)" by (cases r) auto
  from body have "ax + l \<le> con_l c \<and> ay + w \<le> con_w c \<and> az + h \<le> con_h c \<and>
      \<not> check_overlap placed ax ay az l w h \<and>
      pack_recursive_helper rest c
        (placed @ [\<lparr>pb_box = b, pb_x = ax, pb_y = ay, pb_z = az,
                      pb_l = l, pb_w = w, pb_h = h\<rparr>]) = Some ps"
    unfolding r_eq prod.case by (simp split: if_splits)
  with a r show ?thesis unfolding a_eq r_eq by blast
qed

lemma set_rotations:
  "set (rotations b) = set (permutations3 (box_l b, box_w b, box_h b))"
  by (simp only: rotations_def set_remdups)

lemma set_unique_anchors: "set (unique_anchors placed) = set (anchor_points placed)"
  by (simp only: unique_anchors_def set_sort set_remdups)

lemma pack_recursive_helper_invariant:
  assumes "pack_recursive_helper bs c placed = Some ps"
    and "P placed bs"
    and step: "\<And>placed b rest ax ay az l w h.
      P placed (b # rest) \<Longrightarrow> (ax, ay, az) \<in> set (unique_anchors placed) \<Longrightarrow>
      (l, w, h) \<in> set (rotations b) \<Longrightarrow>
      ax + l \<le> con_l c \<Longrightarrow> ay + w \<le> con_w c \<Longrightarrow> az + h \<le> con_h c \<Longrightarrow>
      \<not> check_overlap placed ax ay az l w h \<Longrightarrow>
      P (placed @ [\<lparr>pb_box = b, pb_x = ax, pb_y = ay, pb_z = az,
                     pb_l = l, pb_w = w, pb_h = h\<rparr>]) rest"
  shows "P ps []"
  using assms(1,2)
proof (induction bs arbitrary: placed)
  case Nil
  then show ?case by simp
next
  case (Cons b rest)
  from pack_recursive_helper_ConsD[OF Cons.prems(1)] obtain ax ay az l w h where
    a: "(ax, ay, az) \<in> set (unique_anchors placed)" and r: "(l, w, h) \<in> set (rotations b)"
    and bounds: "ax + l \<le> con_l c" "ay + w \<le> con_w c" "az + h \<le> con_h c"
    and novl: "\<not> check_overlap placed ax ay az l w h"
    and rec: "pack_recursive_helper rest c
        (placed @ [\<lparr>pb_box = b, pb_x = ax, pb_y = ay, pb_z = az,
                      pb_l = l, pb_w = w, pb_h = h\<rparr>]) = Some ps"
    by blast
  have "P (placed @ [\<lparr>pb_box = b, pb_x = ax, pb_y = ay, pb_z = az,
                      pb_l = l, pb_w = w, pb_h = h\<rparr>]) rest"
    using step[OF Cons.prems(2) a r bounds novl] .
  from Cons.IH[OF rec this] show ?case .
qed

lemma pack_no_overlap:
  assumes "pack_recursive_helper bs c placed = Some ps"
    and "sorted_wrt (\<lambda>p q. \<not> positive_volume_overlap p q) placed"
  shows "sorted_wrt (\<lambda>p q. \<not> positive_volume_overlap p q) ps"
proof (rule pack_recursive_helper_invariant[where P = "\<lambda>pl rem. sorted_wrt (\<lambda>p q. \<not> positive_volume_overlap p q) pl", OF assms(1)])
  show "sorted_wrt (\<lambda>p q. \<not> positive_volume_overlap p q) placed" by fact
next
  fix placed b rest ax ay az l w h
  assume "sorted_wrt (\<lambda>p q. \<not> positive_volume_overlap p q) placed"
    and "\<not> check_overlap placed ax ay az l w h"
  then show "sorted_wrt (\<lambda>p q. \<not> positive_volume_overlap p q)
      (placed @ [\<lparr>pb_box = b, pb_x = ax, pb_y = ay, pb_z = az, pb_l = l, pb_w = w, pb_h = h\<rparr>])"
    by (fastforce simp: sorted_wrt_append check_overlap_iff positive_volume_overlap_def intervals_overlap_def)
qed

lemma positive_volume_overlap_sym:
  "positive_volume_overlap p q = positive_volume_overlap q p"
  by (auto simp: positive_volume_overlap_def intervals_overlap_def)

lemma pack_boxes:
  assumes "pack_recursive_helper bs c placed = Some ps"
  shows "map pb_box ps = map pb_box placed @ bs"
proof -
  have "map pb_box ps @ [] = map pb_box placed @ bs"
    by (rule pack_recursive_helper_invariant[where P = "\<lambda>pl rem. map pb_box pl @ rem = map pb_box placed @ bs", OF assms]) auto
  then show ?thesis by simp
qed

lemma rotations_nonneg:
  "nonneg_dims b \<Longrightarrow> (l, w, h) \<in> set (rotations b) \<Longrightarrow> 0 \<le> l \<and> 0 \<le> w \<and> 0 \<le> h"
  by (auto simp: set_rotations permutations3_def nonneg_dims_def)

lemma unique_anchors_nonneg:
  assumes "\<forall>p \<in> set placed. 0 \<le> pb_x p \<and> 0 \<le> pb_y p \<and> 0 \<le> pb_z p \<and> 0 \<le> pb_l p \<and> 0 \<le> pb_w p \<and> 0 \<le> pb_h p"
    and "(ax, ay, az) \<in> set (unique_anchors placed)"
  shows "0 \<le> ax \<and> 0 \<le> ay \<and> 0 \<le> az"
  using assms by (auto simp: set_unique_anchors anchor_points_def)

lemma pack_inside:
  assumes "pack_recursive_helper bs c placed = Some ps"
    and "\<forall>b \<in> set bs. nonneg_dims b"
    and "\<forall>p \<in> set placed. inside_container c p \<and> 0 \<le> pb_l p \<and> 0 \<le> pb_w p \<and> 0 \<le> pb_h p"
  shows "\<forall>p \<in> set ps. inside_container c p"
proof -
  let ?P = "\<lambda>pl rem. (\<forall>b \<in> set rem. nonneg_dims b) \<and>
      (\<forall>p \<in> set pl. inside_container c p \<and> 0 \<le> pb_l p \<and> 0 \<le> pb_w p \<and> 0 \<le> pb_h p)"
  have "?P ps []"
  proof (rule pack_recursive_helper_invariant[where P = ?P, OF assms(1)])
    show "?P placed bs" using assms(2,3) by simp
  next
    fix placed b rest ax ay az l w h
    assume P: "?P placed (b # rest)"
      and a: "(ax, ay, az) \<in> set (unique_anchors placed)"
      and r: "(l, w, h) \<in> set (rotations b)"
      and bnd: "ax + l \<le> con_l c" "ay + w \<le> con_w c" "az + h \<le> con_h c"
    from P have "\<forall>p \<in> set placed. 0 \<le> pb_x p \<and> 0 \<le> pb_y p \<and> 0 \<le> pb_z p \<and> 0 \<le> pb_l p \<and> 0 \<le> pb_w p \<and> 0 \<le> pb_h p"
      by (simp add: inside_container_def)
    from unique_anchors_nonneg[OF this a] have an: "0 \<le> ax \<and> 0 \<le> ay \<and> 0 \<le> az" .
    from P have "nonneg_dims b" by simp
    from rotations_nonneg[OF this r] have rn: "0 \<le> l \<and> 0 \<le> w \<and> 0 \<le> h" .
    show "?P (placed @ [\<lparr>pb_box = b, pb_x = ax, pb_y = ay, pb_z = az, pb_l = l, pb_w = w, pb_h = h\<rparr>]) rest"
      using P an rn bnd by (simp add: inside_container_def)
  qed
  then show ?thesis by simp
qed

subsection \<open>The container generator\<close>

declare py_range.simps [simp del]

lemma py_range_stop: "\<not> (0 < step \<and> start < stop) \<Longrightarrow> py_range start stop step = []"
  by (subst py_range.simps) simp

lemma py_range_step:
  "0 < step \<Longrightarrow> start < stop \<Longrightarrow>
     py_range start stop step = start # py_range (start + step) stop step"
  by (subst py_range.simps) simp

lemma set_py_range:
  "0 < step \<Longrightarrow> set (py_range start stop step) = {v. \<exists>i::nat. v = start + int i * step \<and> v < stop}"
proof (induction start stop step rule: py_range.induct)
  case (1 start stop step)
  show ?case
  proof (cases "start < stop")
    case False
    have "\<not> start + int i * step < stop" for i :: nat
    proof -
      have "0 \<le> int i * step" using "1.prems" by simp
      with False show ?thesis by linarith
    qed
    then have "{v. \<exists>i::nat. v = start + int i * step \<and> v < stop} = {}" by blast
    with False show ?thesis by (simp add: py_range_stop)
  next
    case True
    have IH: "set (py_range (start + step) stop step) =
        {v. \<exists>i::nat. v = start + step + int i * step \<and> v < stop}"
      using "1.IH" "1.prems" True by simp
    have "{v. \<exists>i::nat. v = start + int i * step \<and> v < stop} =
        insert start {v. \<exists>i::nat. v = start + step + int i * step \<and> v < stop}" (is "?L = ?R")
    proof (rule set_eqI)
      fix v
      show "v \<in> ?L \<longleftrightarrow> v \<in> ?R"
      proof
        assume "v \<in> ?L"
        then obtain i :: nat where i: "v = start + int i * step" "v < stop" by blast
        show "v \<in> ?R"
        proof (cases i)
          case 0 with i show ?thesis by simp
        next
          case (Suc j)
          with i have "v = start + step + int j * step" by (simp add: algebra_simps)
          with i show ?thesis by blast
        qed
      next
        assume "v \<in> ?R"
        then consider "v = start" | j :: nat where "v = start + step + int j * step" "v < stop" by blast
        then show "v \<in> ?L"
        proof cases
          case 1
          then have "v = start + int 0 * step \<and> v < stop" using True by simp
          then show ?thesis by blast
        next
          case 2
          then have "v = start + int (Suc j) * step \<and> v < stop" by (simp add: algebra_simps)
          then show ?thesis by blast
        qed
      qed
    qed
    with IH True "1.prems" show ?thesis by (simp add: py_range_step)
  qed
qed

lemma py_range_lower: "v \<in> set (py_range start stop step) \<Longrightarrow> start \<le> v"
proof (induction start stop step rule: py_range.induct)
  case (1 start stop step)
  show ?case
  proof (cases "0 < step \<and> start < stop")
    case True
    with "1.prems" have "v = start \<or> v \<in> set (py_range (start + step) stop step)"
      by (simp add: py_range_step)
    with "1.IH" True show ?thesis by fastforce
  next
    case False
    with "1.prems" show ?thesis by (simp add: py_range_stop)
  qed
qed

lemma sorted_py_range: "sorted (py_range start stop step)"
proof (induction start stop step rule: py_range.induct)
  case (1 start stop step)
  show ?case
  proof (cases "0 < step \<and> start < stop")
    case True
    then have "\<forall>v \<in> set (py_range (start + step) stop step). start \<le> v"
      using py_range_lower[of _ "start + step" stop step] by fastforce
    with True "1.IH" show ?thesis by (simp add: py_range_step)
  next
    case False then show ?thesis by (simp add: py_range_stop)
  qed
qed

lemma set_valid_steps:
  "0 < increment \<Longrightarrow> set (py_range min_dim (max_dim + 1) increment) = progression min_dim max_dim increment"
  by (simp add: set_py_range progression_def)

lemma sorted_dims_sorted: "l \<le> w \<Longrightarrow> w \<le> h \<Longrightarrow> sorted_dims l w h = (l, w, h)"
  by (simp add: sorted_dims_def)

lemma sorted_dims_cases:
  "sorted_dims l w h \<in> {(l, w, h), (l, h, w), (w, l, h), (w, h, l), (h, l, w), (h, w, l)}"
  by (simp add: sorted_dims_def insort_key.simps)

lemma sorted_dims_ordered:
  "sorted_dims l w h = (a, b, c) \<Longrightarrow> a \<le> b \<and> b \<le> c"
  by (auto simp: sorted_dims_def split: if_splits)

lemma sorted_dims_mset:
  "sorted_dims l w h = (a, b, c) \<Longrightarrow> mset [a, b, c] = mset [l, w, h]"
  by (auto simp: sorted_dims_def split: if_splits)

lemma admitted_Nil: "admitted total_sum l w [] = {}"
  by (simp add: admitted_def)

lemma admitted_Cons:
  "admitted total_sum l w (h # hs) =
     (if l + w + h \<le> total_sum then insert (sorted_dims l w h) (admitted total_sum l w hs)
      else admitted total_sum l w hs)"
  by (auto simp: admitted_def)

lemma h_loop_sorted:
  "sorted hs \<Longrightarrow> h_loop total_sum l w hs vc = vc \<union> admitted total_sum l w hs"
proof (induction hs arbitrary: vc)
  case Nil
  then show ?case by (simp add: admitted_Nil)
next
  case (Cons h hs)
  show ?case
  proof (cases "l + w + h \<le> total_sum")
    case True
    with Cons show ?thesis by (simp add: admitted_Cons)
  next
    case False
    with Cons.prems have "admitted total_sum l w (h # hs) = {}"
      by (fastforce simp: admitted_def)
    with False show ?thesis by simp
  qed
qed

lemma naive_h_scan:
  "fold (\<lambda>h vc. if l + w + h \<le> total_sum then insert (sorted_dims l w h) vc else vc) hs vc =
     vc \<union> admitted total_sum l w hs"
  by (induction hs arbitrary: vc) (auto simp: admitted_Nil admitted_Cons)

lemma fold_union:
  "(\<And>a S. a \<in> set xs \<Longrightarrow> f a S = S \<union> F a) \<Longrightarrow> fold f xs S = S \<union> (\<Union>a \<in> set xs. F a)"
  by (induction xs arbitrary: S) auto

lemma scan_with_break:
  assumes "sorted steps"
  shows "fold (\<lambda>l. fold (\<lambda>w. h_loop total_sum l w steps) steps) steps {} = all_admitted total_sum steps"
proof -
  have inner: "\<And>l S. fold (\<lambda>w. h_loop total_sum l w steps) steps S =
      S \<union> (\<Union>w \<in> set steps. admitted total_sum l w steps)"
    by (rule fold_union) (simp add: h_loop_sorted[OF assms])
  have "fold (\<lambda>l. fold (\<lambda>w. h_loop total_sum l w steps) steps) steps {} =
      {} \<union> (\<Union>l \<in> set steps. \<Union>w \<in> set steps. admitted total_sum l w steps)"
    by (rule fold_union) (simp add: inner)
  then show ?thesis by (simp add: all_admitted_def)
qed

lemma scan_naive:
  "fold (\<lambda>l. fold (\<lambda>w. fold (\<lambda>h vc.
       if l + w + h \<le> total_sum then insert (sorted_dims l w h) vc else vc) steps) steps) steps {} =
     all_admitted total_sum steps"
proof -
  have inner: "\<And>l S. fold (\<lambda>w. fold (\<lambda>h vc.
       if l + w + h \<le> total_sum then insert (sorted_dims l w h) vc else vc) steps) steps S =
      S \<union> (\<Union>w \<in> set steps. admitted total_sum l w steps)"
    by (rule fold_union) (simp add: naive_h_scan)
  have "fold (\<lambda>l. fold (\<lambda>w. fold (\<lambda>h vc.
       if l + w + h \<le> total_sum then insert (sorted_dims l w h) vc else vc) steps) steps) steps {} =
      {} \<union> (\<Union>l \<in> set steps. \<Union>w \<in> set steps. admitted total_sum l w steps)"
    by (rule fold_union) (simp add: inner)
  then show ?thesis by (simp add: all_admitted_def)
qed

lemma finite_all_admitted: "finite (all_admitted total_sum steps)"
  by (simp add: all_admitted_def admitted_def)

lemma all_admitted_eq:
  "all_admitted total_sum steps =
     {(l, w, h). l \<le> w \<and> w \<le> h \<and> l \<in> set steps \<and> w \<in> set steps \<and> h \<in> set steps \<and>
                 l + w + h \<le> total_sum}" (is "?L = ?R")
proof (rule set_eqI)
  fix d :: "int \<times> int \<times> int"
  obtain a b c where d: "d = (a, b, c)" by (cases d) auto
  show "d \<in> ?L \<longleftrightarrow> d \<in> ?R"
  proof
    assume "d \<in> ?L"
    then obtain l w h where lwh: "l \<in> set steps" "w \<in> set steps" "h \<in> set steps"
      "l + w + h \<le> total_sum" and sd: "sorted_dims l w h = (a, b, c)"
      unfolding d all_admitted_def admitted_def by auto
    from sorted_dims_ordered[OF sd] have ord: "a \<le> b \<and> b \<le> c" .
    from sorted_dims_cases[of l w h] sd lwh
    have "a \<in> set steps \<and> b \<in> set steps \<and> c \<in> set steps \<and> a + b + c \<le> total_sum"
      by auto
    with ord show "d \<in> ?R" by (simp add: d)
  next
    assume "d \<in> ?R"
    then have *: "a \<le> b" "b \<le> c" "a \<in> set steps" "b \<in> set steps" "c \<in> set steps"
      "a + b + c \<le> total_sum" by (auto simp: d)
    then have "sorted_dims a b c = (a, b, c)" by (simp add: sorted_dims_sorted)
    with * show "d \<in> ?L" unfolding d all_admitted_def admitted_def by force
  qed
qed

lemma generate_containers_eq:
  "0 < increment \<Longrightarrow> generate_containers total_sum max_dim min_dim increment =
     map container_of (sorted_list_of_set
       (all_admitted total_sum (py_range min_dim (max_dim + 1) increment)))"
  by (simp add: generate_containers_def Let_def scan_with_break sorted_py_range)

lemma generate_containers_naive_eq:
  "0 < increment \<Longrightarrow> generate_containers_naive total_sum max_dim min_dim increment =
     map container_of (sorted_list_of_set
       (all_admitted total_sum (py_range min_dim (max_dim + 1) increment)))"
  by (simp add: generate_containers_naive_def Let_def scan_naive)

lemma inj_container_of: "inj container_of"
  by (auto simp: inj_on_def container_of_def)

lemma set_generate_containers:
  assumes "0 < increment"
  shows "set (generate_containers total_sum max_dim min_dim increment) =
     container_of ` {(l, w, h). l \<le> w \<and> w \<le> h \<and>
        l \<in> progression min_dim max_dim increment \<and>
        w \<in> progression min_dim max_dim increment \<and>
        h \<in> progression min_dim max_dim increment \<and> l + w + h \<le> total_sum}"
proof -
  let ?steps = "py_range min_dim (max_dim + 1) increment"
  have "set (generate_containers total_sum max_dim min_dim increment) =
      container_of ` all_admitted total_sum ?steps"
    by (simp add: generate_containers_eq[OF assms] finite_all_admitted)
  then show ?thesis
    by (simp only: all_admitted_eq set_valid_steps[OF assms])
qed

lemma distinct_generate_containers:
  "distinct (generate_containers total_sum max_dim min_dim increment)"
proof (cases "0 < increment")
  case True
  then show ?thesis
    by (simp add: generate_containers_eq distinct_map inj_container_of[THEN inj_on_subset])
next
  case False
  then show ?thesis by (simp add: generate_containers_def)
qed

subsection \<open>The combination search\<close>

lemma container_loop_calls:
  "fit_calls (container_loop comb (total_volume comb) cs st) =
     fit_calls st @ map (Pair comb) (engine_calls cs comb)"
proof (induction cs arbitrary: st)
  case Nil
  show ?case by (simp add: engine_calls_def)
next
  case (Cons c cs)
  show ?case
  proof (cases "total_volume comb > con_volume c")
    case True
    then show ?thesis using Cons.IH[of st]
      by (simp add: engine_calls_def yields_placement_def)
  next
    case small: False
    show ?thesis
    proof (cases "check_fit comb c")
      case None
      with small show ?thesis
        using Cons.IH[of "st\<lparr>fit_calls := fit_calls st @ [(comb, c)]\<rparr>"]
        by (simp add: engine_calls_def yields_placement_def)
    next
      case (Some ps)
      with small show ?thesis
        by (simp add: engine_calls_def yields_placement_def)
    qed
  qed
qed

lemma container_loop_fits:
  "successful_fits (container_loop comb (total_volume comb) cs st) =
     successful_fits st @ number_fits (found_solutions st)
       (case first_fit cs comb of None \<Rightarrow> [] | Some r \<Rightarrow> [(comb, r)]) \<and>
   found_solutions (container_loop comb (total_volume comb) cs st) =
     found_solutions st + (case first_fit cs comb of None \<Rightarrow> 0 | Some r \<Rightarrow> 1)"
proof (induction cs arbitrary: st)
  case Nil
  show ?case by (simp add: first_fit_def)
next
  case (Cons c cs)
  show ?case
  proof (cases "total_volume comb > con_volume c")
    case True
    then show ?thesis using Cons.IH[of st]
      by (simp add: first_fit_def yields_placement_def)
  next
    case small: False
    show ?thesis
    proof (cases "check_fit comb c")
      case None
      with small show ?thesis
        using Cons.IH[of "st\<lparr>fit_calls := fit_calls st @ [(comb, c)]\<rparr>"]
        by (simp add: first_fit_def yields_placement_def)
    next
      case (Some ps)
      with small show ?thesis
        by (simp add: first_fit_def yields_placement_def)
    qed
  qed
qed

lemma number_fits_append:
  "number_fits n (xs @ ys) = number_fits n xs @ number_fits (n + length xs) ys"
  by (induction n xs rule: number_fits.induct) auto

lemma accepted_Nil: "accepted cs mw [] = []"
  by (simp add: accepted_def)

lemma accepted_append: "accepted cs mw (xs @ ys) = accepted cs mw xs @ accepted cs mw ys"
  by (simp add: accepted_def map_filter_def)

lemma accepted_Cons:
  "accepted cs mw (comb # combs) =
     (if int_gt_float (total_weight comb) mw then []
      else case first_fit cs comb of None \<Rightarrow> [] | Some r \<Rightarrow> [(comb, r)]) @ accepted cs mw combs"
  by (simp add: accepted_def map_filter_simps split: option.splits)

lemma attempted_Nil: "attempted cs mw [] = []"
  by (simp add: attempted_def)

lemma attempted_append: "attempted cs mw (xs @ ys) = attempted cs mw xs @ attempted cs mw ys"
  by (simp add: attempted_def)

lemma try_combination_calls:
  "fit_calls (try_combination cs mw comb st) = fit_calls st @ attempted cs mw [comb]"
  using container_loop_calls[of comb cs st]
  by (simp add: try_combination_def attempted_def total_weight_def total_volume_def)

lemma try_combination_fits:
  "successful_fits (try_combination cs mw comb st) =
     successful_fits st @ number_fits (found_solutions st) (accepted cs mw [comb]) \<and>
   found_solutions (try_combination cs mw comb st) =
     found_solutions st + length (accepted cs mw [comb])"
  using container_loop_fits[of comb cs st]
  by (simp add: try_combination_def accepted_Cons accepted_Nil total_weight_def total_volume_def
      split: option.splits)

lemma fold_try_calls:
  "fit_calls (fold (try_combination cs mw) combs st) = fit_calls st @ attempted cs mw combs"
proof (induction combs arbitrary: st)
  case Nil
  show ?case by (simp add: attempted_def)
next
  case (Cons comb combs)
  have "attempted cs mw (comb # combs) = attempted cs mw [comb] @ attempted cs mw combs"
    using attempted_append[of cs mw "[comb]" combs] by simp
  then show ?case by (simp add: Cons.IH try_combination_calls)
qed

lemma fold_try_fits:
  "successful_fits (fold (try_combination cs mw) combs st) =
     successful_fits st @ number_fits (found_solutions st) (accepted cs mw combs) \<and>
   found_solutions (fold (try_combination cs mw) combs st) =
     found_solutions st + length (accepted cs mw combs)"
proof (induction combs arbitrary: st)
  case Nil
  show ?case by (simp add: accepted_Nil)
next
  case (Cons comb combs)
  have split: "accepted cs mw (comb # combs) = accepted cs mw [comb] @ accepted cs mw combs"
    using accepted_append[of cs mw "[comb]" combs] by simp
  show ?case
    by (simp add: Cons.IH try_combination_fits split number_fits_append)
qed

lemma k_step_calls:
  "fit_calls (k_step cs mw boxes k st) = fit_calls st @ attempted cs mw (combinations boxes k)"
  by (simp add: k_step_def fold_try_calls)

lemma k_step_fits:
  "successful_fits (k_step cs mw boxes k st) =
     successful_fits st @ number_fits (found_solutions st) (accepted cs mw (combinations boxes k)) \<and>
   found_solutions (k_step cs mw boxes k st) =
     found_solutions st + length (accepted cs mw (combinations boxes k))"
  by (simp add: k_step_def fold_try_fits)

lemma fold_k_step_calls:
  "fit_calls (fold (k_step cs mw boxes) ks st) =
     fit_calls st @ attempted cs mw (concat (map (combinations boxes) ks))"
proof (induction ks arbitrary: st)
  case Nil
  show ?case by (simp add: attempted_def)
next
  case (Cons k ks)
  show ?case by (simp add: Cons.IH k_step_calls attempted_append)
qed

lemma fold_k_step_fits:
  "successful_fits (fold (k_step cs mw boxes) ks st) =
     successful_fits st @
     number_fits (found_solutions st) (accepted cs mw (concat (map (combinations boxes) ks))) \<and>
   found_solutions (fold (k_step cs mw boxes) ks st) =
     found_solutions st + length (accepted cs mw (concat (map (combinations boxes) ks)))"
proof (induction ks arbitrary: st)
  case Nil
  show ?case by (simp add: accepted_Nil)
next
  case (Cons k ks)
  show ?case by (simp add: Cons.IH k_step_fits accepted_append number_fits_append)
qed

lemma search_loops_calls:
  "fit_calls (search_loops cs mw boxes st) = fit_calls st @ attempted cs mw (all_combinations boxes)"
  by (simp add: search_loops_def all_combinations_def fold_k_step_calls)

lemma search_loops_fits:
  "successful_fits (search_loops cs mw boxes st) =
     successful_fits st @ number_fits (found_solutions st) (accepted cs mw (all_combinations boxes))"
  by (simp add: search_loops_def all_combinations_def fold_k_step_fits)

lemma collect_boxes_fst:
  "fst (collect_boxes es (bs, lg)) = bs @ valid_boxes es"
  by (induction es arbitrary: bs lg) (auto simp: valid_boxes_def map_filter_simps split: option.splits)

lemma all_combinations_short: "length xs < 2 \<Longrightarrow> all_combinations xs = []"
  by (simp add: all_combinations_def)

lemma first_fit_no_containers: "first_fit [] comb = None"
  by (simp add: first_fit_def)

lemma accepted_no_containers: "accepted [] mw combs = []"
  by (induction combs) (simp_all add: accepted_Nil accepted_Cons first_fit_no_containers)

lemma engine_calls_Nil: "engine_calls [] comb = []"
  by (simp add: engine_calls_def)

lemma attempted_Cons:
  "attempted cs mw (comb # combs) =
     (if int_gt_float (total_weight comb) mw then []
      else map (Pair comb) (engine_calls cs comb)) @ attempted cs mw combs"
  by (simp add: attempted_def)

lemma attempted_no_containers: "attempted [] mw combs = []"
  by (induction combs) (simp_all add: attempted_Nil attempted_Cons engine_calls_Nil)

lemma run_packing_unfold:
  assumes "collect_boxes entries ([], [Starting_packing]) = (bs, lg)"
  shows "run_packing (Some (total_sum, max_dim, min_dim, increment, max_weight)) entries =
    (let st0 = \<lparr>log = [Starting_packing], successful_fits = [], found_solutions = 0,
                 fit_calls = []\<rparr>;
         containers = generate_containers total_sum max_dim min_dim increment
     in if containers = [] then st0\<lparr>log := [Starting_packing, Error_no_containers]\<rparr>
        else if length bs < 2 then st0\<lparr>log := lg @ [Error_need_two_boxes]\<rparr>
        else
          (let st2 = search_loops containers max_weight bs
                 (st0\<lparr>log := lg @ [Checking_boxes (length bs) (length containers), Separator]\<rparr>)
           in st2\<lparr>log := log st2 @ [Separator, Search_complete (found_solutions st2)]\<rparr>))"
  using assms by (simp add: run_packing_def Let_def)

lemma run_packing_fits:
  "successful_fits (run_packing (Some (total_sum, max_dim, min_dim, increment, max_weight)) entries) =
     number_fits 0 (accepted (generate_containers total_sum max_dim min_dim increment) max_weight
        (all_combinations (valid_boxes entries)))"
proof -
  obtain bs lg where cb: "collect_boxes entries ([], [Starting_packing]) = (bs, lg)"
    by (cases "collect_boxes entries ([], [Starting_packing])") auto
  with collect_boxes_fst[of entries "[]" "[Starting_packing]"] have bs: "valid_boxes entries = bs"
    by simp
  let ?cs = "generate_containers total_sum max_dim min_dim increment"
  consider "?cs = []" | "?cs \<noteq> []" "length bs < 2" | "?cs \<noteq> []" "\<not> length bs < 2" by blast
  then show ?thesis
  proof cases
    case 1
    then show ?thesis
      by (simp add: run_packing_unfold[OF cb] accepted_no_containers)
  next
    case 2
    then show ?thesis
      by (simp add: run_packing_unfold[OF cb] bs all_combinations_short accepted_Nil)
  next
    case 3
    then show ?thesis
      by (simp add: run_packing_unfold[OF cb] bs Let_def search_loops_fits)
  qed
qed

lemma run_packing_calls:
  "fit_calls (run_packing (Some (total_sum, max_dim, min_dim, increment, max_weight)) entries) =
     attempted (generate_containers total_sum max_dim min_dim increment) max_weight
        (all_combinations (valid_boxes entries))"
proof -
  obtain bs lg where cb: "collect_boxes entries ([], [Starting_packing]) = (bs, lg)"
    by (cases "collect_boxes entries ([], [Starting_packing])") auto
  with collect_boxes_fst[of entries "[]" "[Starting_packing]"] have bs: "valid_boxes entries = bs"
    by simp
  let ?cs = "generate_containers total_sum max_dim min_dim increment"
  consider "?cs = []" | "?cs \<noteq> []" "length bs < 2" | "?cs \<noteq> []" "\<not> length bs < 2" by blast
  then show ?thesis
  proof cases
    case 1
    then show ?thesis
      by (simp add: run_packing_unfold[OF cb] attempted_no_containers)
  next
    case 2
    then show ?thesis
      by (simp add: run_packing_unfold[OF cb] bs all_combinations_short attempted_Nil)
  next
    case 3
    then show ?thesis
      by (simp add: run_packing_unfold[OF cb] bs Let_def search_loops_calls)
  qed
qed

subsection \<open>The scenarios, evaluated, and what follows for a run\<close>

lemma check_fit_AB: "check_fit [item_A, item_B] cube_300 = Some [placed_B, placed_A]"
  by code_simp

lemma run_AB:
  "run_packing (Some (900, 300, 300, 50, Finite 2)) form_AB =
     \<lparr>log = [Starting_packing, Checking_boxes 2 1, Separator, Checking_combinations 2,
              Found_fit 1, Container_line 300 300 300, Separator, Search_complete 1],
      successful_fits = [\<lparr>fit_number = 1, fit_box_names = [''A'', ''B''],
                           fit_container = cube_300, fit_boxes = [placed_B, placed_A]\<rparr>],
      found_solutions = 1,
      fit_calls = [([item_A, item_B], cube_300)]\<rparr>"
  by code_simp

lemma pairwise_from_sorted_wrt:
  assumes "sorted_wrt (\<lambda>p q. \<not> positive_volume_overlap p q) ps"
    and "i < length ps" "j < length ps" "i \<noteq> j"
  shows "\<not> positive_volume_overlap (ps ! i) (ps ! j)"
proof (cases "i < j")
  case True
  with assms show ?thesis by (simp add: sorted_wrt_iff_nth_less)
next
  case False
  with assms have "j < i" by simp
  with assms have "\<not> positive_volume_overlap (ps ! j) (ps ! i)"
    by (simp add: sorted_wrt_iff_nth_less)
  then show ?thesis by (simp add: positive_volume_overlap_sym)
qed

lemma check_fit_SomeD:
  "check_fit boxes c = Some ps \<Longrightarrow> pack_recursive_helper (sorted_boxes boxes) c [] = Some ps"
  by (simp add: check_fit_def split: if_splits)

lemma check_fit_no_overlap:
  assumes "check_fit boxes c = Some ps" "i < length ps" "j < length ps" "i \<noteq> j"
  shows "\<not> positive_volume_overlap (ps ! i) (ps ! j)"
proof -
  have "sorted_wrt (\<lambda>p q. \<not> positive_volume_overlap p q) ps"
    using pack_no_overlap[OF check_fit_SomeD[OF assms(1)]] by simp
  from pairwise_from_sorted_wrt[OF this assms(2-4)] show ?thesis .
qed

lemma touching_not_flagged:
  "\<forall>p \<in> set placed. touches p x y z l w h \<Longrightarrow> \<not> check_overlap placed x y z l w h"
  by (fastforce simp: check_overlap_iff touches_def)

lemma number_fits_mem:
  "s \<in> set (number_fits n xs) \<Longrightarrow>
     \<exists>comb c ps. (comb, c, ps) \<in> set xs \<and> fit_box_names s = map box_name comb \<and>
        fit_container s = c \<and> fit_boxes s = ps"
  by (induction n xs rule: number_fits.induct) auto

lemma find_SomeD: "List.find P xs = Some x \<Longrightarrow> x \<in> set xs \<and> P x"
  by (induction xs) (auto split: if_splits)

lemma first_fit_SomeD:
  "first_fit cs comb = Some (c, ps) \<Longrightarrow>
     c \<in> set cs \<and> total_volume comb \<le> con_volume c \<and> check_fit comb c = Some ps"
  by (auto simp: first_fit_def yields_placement_def split: option.splits dest: find_SomeD)

lemma accepted_mem:
  "(comb, c, ps) \<in> set (accepted cs mw combs) \<Longrightarrow>
     comb \<in> set combs \<and> \<not> int_gt_float (total_weight comb) mw \<and> c \<in> set cs \<and>
     total_volume comb \<le> con_volume c \<and> check_fit comb c = Some ps"
proof (induction combs)
  case Nil
  then show ?case by (simp add: accepted_Nil)
next
  case (Cons a combs)
  then show ?case
    by (auto simp: accepted_Cons split: if_splits option.splits
        dest: first_fit_SomeD first_fit_SomeD[OF sym])
qed

lemma combinations_mem:
  "comb \<in> set (combinations xs k) \<Longrightarrow> length comb = k \<and> set comb \<subseteq> set xs"
  by (induction xs k arbitrary: comb rule: combinations.induct) fastforce+

lemma all_combinations_mem:
  "comb \<in> set (all_combinations xs) \<Longrightarrow> 2 \<le> length comb \<and> set comb \<subseteq> set xs"
  by (auto simp: all_combinations_def dest: combinations_mem)

lemma run_packing_no_rules:
  "run_packing None entries =
     \<lparr>log = [Starting_packing, Error_invalid_numeric], successful_fits = [],
      found_solutions = 0, fit_calls = []\<rparr>"
  by (simp add: run_packing_def)

lemma run_packing_fit_origin:
  assumes "s \<in> set (successful_fits
      (run_packing (Some (total_sum, max_dim, min_dim, increment, max_weight)) entries))"
  shows "\<exists>comb. comb \<in> set (all_combinations (valid_boxes entries)) \<and>
      \<not> int_gt_float (total_weight comb) max_weight \<and>
      fit_container s \<in> set (generate_containers total_sum max_dim min_dim increment) \<and>
      total_volume comb \<le> con_volume (fit_container s) \<and>
      check_fit comb (fit_container s) = Some (fit_boxes s) \<and>
      fit_box_names s = map box_name comb"
proof -
  from assms obtain comb c ps where
    "(comb, c, ps) \<in> set (accepted (generate_containers total_sum max_dim min_dim increment)
        max_weight (all_combinations (valid_boxes entries)))"
    and s: "fit_box_names s = map box_name comb" "fit_container s = c" "fit_boxes s = ps"
    unfolding run_packing_fits by (blast dest: number_fits_mem)
  from accepted_mem[OF this(1)] s show ?thesis by auto
qed

lemma attempted_mem:
  "(comb, c) \<in> set (attempted cs mw combs) \<Longrightarrow>
     comb \<in> set combs \<and> \<not> int_gt_float (total_weight comb) mw \<and> c \<in> set cs \<and>
     total_volume comb \<le> con_volume c"
proof (induction combs)
  case Nil
  then show ?case by (simp add: attempted_Nil)
next
  case (Cons a combs)
  have calls: "c' \<in> set (engine_calls cs a) \<Longrightarrow> c' \<in> set cs \<and> total_volume a \<le> con_volume c'" for c'
    by (auto simp: engine_calls_def yields_placement_def split: option.splits
        dest: find_SomeD find_SomeD[OF sym] set_takeWhileD)
  from Cons show ?case
    by (auto simp: attempted_Cons split: if_splits dest: calls)
qed

lemma check_fit_boxes:
  "check_fit boxes c = Some ps \<Longrightarrow> map pb_box ps = sorted_boxes boxes"
  using pack_boxes[OF check_fit_SomeD, of boxes c ps] by simp

lemma mset_sorted_boxes: "mset (sorted_boxes boxes) = mset boxes"
  by (simp add: sorted_boxes_def)

lemma total_weight_mset:
  assumes "mset xs = mset ys"
  shows "total_weight xs = total_weight ys"
proof -
  have "mset (map box_weight xs) = mset (map box_weight ys)"
    using assms by (metis mset_map)
  then have "sum_mset (mset (map box_weight xs)) = sum_mset (mset (map box_weight ys))"
    by (rule arg_cong)
  then show ?thesis
    by (simp only: total_weight_def sum_mset_sum_list)
qed

lemma check_fit_total_weight:
  "check_fit boxes c = Some ps \<Longrightarrow> total_weight (map pb_box ps) = total_weight boxes"
  by (rule total_weight_mset) (simp add: check_fit_boxes mset_sorted_boxes)

lemma pack_rotations:
  assumes "pack_recursive_helper bs c placed = Some ps"
    and "\<forall>p \<in> set placed. (pb_l p, pb_w p, pb_h p) \<in> set (rotations (pb_box p))"
  shows "\<forall>p \<in> set ps. (pb_l p, pb_w p, pb_h p) \<in> set (rotations (pb_box p))"
  by (rule pack_recursive_helper_invariant[where
        P = "\<lambda>pl rem. \<forall>p \<in> set pl. (pb_l p, pb_w p, pb_h p) \<in> set (rotations (pb_box p))",
        OF assms]) simp

lemma pack_upper_bounds:
  assumes "pack_recursive_helper bs c placed = Some ps"
    and "\<forall>p \<in> set placed. pb_x p + pb_l p \<le> con_l c \<and> pb_y p + pb_w p \<le> con_w c \<and>
            pb_z p + pb_h p \<le> con_h c"
  shows "\<forall>p \<in> set ps. pb_x p + pb_l p \<le> con_l c \<and> pb_y p + pb_w p \<le> con_w c \<and>
            pb_z p + pb_h p \<le> con_h c"
  by (rule pack_recursive_helper_invariant[where
        P = "\<lambda>pl rem. \<forall>p \<in> set pl. pb_x p + pb_l p \<le> con_l c \<and> pb_y p + pb_w p \<le> con_w c \<and>
            pb_z p + pb_h p \<le> con_h c",
        OF assms]) simp

lemma run_packing_fit_checked:
  assumes "s \<in> set (successful_fits (run_packing rules entries))"
  shows "\<exists>comb. comb \<in> set (all_combinations (valid_boxes entries)) \<and>
      check_fit comb (fit_container s) = Some (fit_boxes s)"
proof (cases rules)
  case None
  with assms show ?thesis by (simp add: run_packing_no_rules)
next
  case (Some r)
  obtain total_sum max_dim min_dim increment max_weight
    where "r = (total_sum, max_dim, min_dim, increment, max_weight)" by (cases r) auto
  with Some assms run_packing_fit_origin[of s total_sum max_dim min_dim increment max_weight entries]
  show ?thesis by blast
qed

lemma check_fit_traced_result: "fst (check_fit_traced boxes c) = check_fit boxes c"
  by (simp add: check_fit_traced_def check_fit_def)

lemma container_of_fields:
  "container_of (l, w, h) = \<lparr>con_l = l, con_w = w, con_h = h, con_volume = l * w * h\<rparr>"
  by (simp add: container_of_def)

lemma generated_container:
  assumes "0 < increment"
  shows "c \<in> set (generate_containers total_sum max_dim min_dim increment) \<longleftrightarrow>
     (\<exists>l w h. c = \<lparr>con_l = l, con_w = w, con_h = h, con_volume = l * w * h\<rparr> \<and>
        l \<le> w \<and> w \<le> h \<and>
        l \<in> progression min_dim max_dim increment \<and>
        w \<in> progression min_dim max_dim increment \<and>
        h \<in> progression min_dim max_dim increment \<and> l + w + h \<le> total_sum)"
  unfolding set_generate_containers[OF assms]
  by (auto simp: container_of_fields image_iff)

lemma sorted_triple_unique:
  fixes a b c a' b' c' :: int
  assumes "a \<le> b" "b \<le> c" "a' \<le> b'" "b' \<le> c'" "mset [a, b, c] = mset [a', b', c']"
  shows "a = a' \<and> b = b' \<and> c = c'"
proof -
  have "sorted [a, b, c]" "sorted [a', b', c']" using assms by simp_all
  with assms(5) have "[a, b, c] = [a', b', c']"
    by (metis properties_for_sort)
  then show ?thesis by simp
qed

lemma step_300: "(300::int) \<in> progression 50 600 50"
proof -
  have "(300::int) = 50 + int 5 * 50 \<and> (300::int) \<le> 600" by simp
  then show ?thesis unfolding progression_def by blast
qed

lemma no_triple_within_10: "generate_containers 10 5 5 1 = []"
  by code_simp

lemma naive_within_6:
  "generate_containers_naive 6 3 1 1 =
     map container_of [(1, 1, 1), (1, 1, 2), (1, 1, 3), (1, 2, 2), (1, 2, 3), (2, 2, 2)]"
  by code_simp

lemma empty_state_fields:
  "log empty_state = []" "successful_fits empty_state = []"
  "found_solutions empty_state = 0" "fit_calls empty_state = []"
  by (simp_all add: empty_state_def)

lemma run_AB_overweight:
  "run_packing (Some (900, 300, 300, 50, Finite 1)) form_AB =
     \<lparr>log = [Starting_packing, Checking_boxes 2 1, Separator, Checking_combinations 2,
              Separator, Search_complete 0],
      successful_fits = [], found_solutions = 0, fit_calls = []\<rparr>"
  by code_simp

lemma search_four_containers:
  "search_loops [tiny_100, flat_150, cube_300, cube_400] (Finite 2) [item_A, item_B] empty_state =
     \<lparr>log = [Checking_combinations 2, Found_fit 1, Container_line 300 300 300],
      successful_fits = [\<lparr>fit_number = 1, fit_box_names = [''A'', ''B''],
                           fit_container = cube_300, fit_boxes = [placed_B, placed_A]\<rparr>],
      found_solutions = 1,
      fit_calls = [([item_A, item_B], flat_150), ([item_A, item_B], cube_300)]\<rparr>"
  by code_simp

lemma run_one_item:
  "run_packing (Some (900, 300, 300, 50, Finite 2)) [hd form_AB] =
     \<lparr>log = [Starting_packing, Error_need_two_boxes],
      successful_fits = [], found_solutions = 0, fit_calls = []\<rparr>"
  by code_simp

lemma valid_boxes_one: "valid_boxes [hd form_AB] = [item_A]"
  by code_simp

lemma run_packing_call_origin:
  assumes "(comb, c) \<in> set (fit_calls
      (run_packing (Some (total_sum, max_dim, min_dim, increment, max_weight)) entries))"
  shows "comb \<in> set (all_combinations (valid_boxes entries)) \<and>
      \<not> int_gt_float (total_weight comb) max_weight \<and>
      c \<in> set (generate_containers total_sum max_dim min_dim increment) \<and>
      total_volume comb \<le> con_volume c"
  using assms unfolding run_packing_calls by (rule attempted_mem)

lemma run_packing_call_size:
  assumes "(comb, c) \<in> set (fit_calls (run_packing rules entries))"
  shows "2 \<le> length comb"
proof (cases rules)
  case None
  with assms show ?thesis by (simp add: run_packing_no_rules)
next
  case (Some r)
  obtain total_sum max_dim min_dim increment max_weight
    where "r = (total_sum, max_dim, min_dim, increment, max_weight)" by (cases r) auto
  with Some assms run_packing_call_origin[of comb c total_sum max_dim min_dim increment max_weight entries]
  show ?thesis by (blast dest: all_combinations_mem)
qed

lemma check_fit_length: "check_fit boxes c = Some ps \<Longrightarrow> length ps = length boxes"
proof -
  assume "check_fit boxes c = Some ps"
  then have "length (map pb_box ps) = length (sorted_boxes boxes)"
    by (simp only: check_fit_boxes)
  then show ?thesis by (simp add: sorted_boxes_def)
qed

lemma collect_boxes_log:
  "set (snd (collect_boxes es (bs, lg))) \<subseteq> set lg \<union> range Error_could_not_parse"
proof (induction es arbitrary: bs lg)
  case Nil
  show ?case by simp
next
  case (Cons e es)
  have IH: "set (snd (collect_boxes es (bs', lg'))) \<subseteq> set lg' \<union> range Error_could_not_parse"
    for bs' lg' by (rule Cons.IH)
  show ?case
  proof (cases "entry_dims e \<noteq> []")
    case True
    show ?thesis
    proof (cases "parse_box_string (entry_match e) (entry_name e) (entry_color e)")
      case None
      with True IH[of bs "lg @ [Error_could_not_parse (entry_name e)]"] show ?thesis by auto
    next
      case (Some b)
      with True IH[of "bs @ [b]" lg] show ?thesis by simp
    qed
  next
    case False
    with IH[of bs lg] show ?thesis by simp
  qed
qed

lemma run_packing_too_few:
  assumes "length (valid_boxes entries) < 2"
    and "generate_containers total_sum max_dim min_dim increment \<noteq> []"
  shows "run_packing (Some (total_sum, max_dim, min_dim, increment, max_weight)) entries =
     \<lparr>log = snd (collect_boxes entries ([], [Starting_packing])) @ [Error_need_two_boxes],
      successful_fits = [], found_solutions = 0, fit_calls = []\<rparr>"
proof -
  obtain bs lg where cb: "collect_boxes entries ([], [Starting_packing]) = (bs, lg)"
    by (cases "collect_boxes entries ([], [Starting_packing])") auto
  with collect_boxes_fst[of entries "[]" "[Starting_packing]"] have bs: "valid_boxes entries = bs"
    by simp
  from assms show ?thesis
    by (simp add: run_packing_unfold[OF cb] bs[symmetric] cb)
qed

lemma run_packing_no_containers:
  "generate_containers total_sum max_dim min_dim increment = [] \<Longrightarrow>
   run_packing (Some (total_sum, max_dim, min_dim, increment, max_weight)) entries =
     \<lparr>log = [Starting_packing, Error_no_containers], successful_fits = [],
      found_solutions = 0, fit_calls = []\<rparr>"
  by (simp add: run_packing_def)

subsection \<open>Items read from the form have no negative dimension\<close>

lemma negative_dimensions_move_origin:
  "check_fit [cube_minus_5, cube_minus_3] cube_300 =
     Some [\<lparr>pb_box = cube_minus_3, pb_x = 0, pb_y = 0, pb_z = 0,
             pb_l = - 3, pb_w = - 3, pb_h = - 3\<rparr>,
           \<lparr>pb_box = cube_minus_5, pb_x = - 3, pb_y = 0, pb_z = 0,
             pb_l = - 5, pb_w = - 5, pb_h = - 5\<rparr>]"
  by code_simp

lemma parse_box_string_nonneg:
  "parse_box_string match name color_hex = Some b \<Longrightarrow>
     nonneg_dims b \<and> box_volume b = box_l b * box_w b * box_h b \<and> 0 \<le> box_weight b"
  by (auto simp: parse_box_string_def nonneg_dims_def Let_def split: option.splits)

lemma valid_boxes_nonneg: "b \<in> set (valid_boxes entries) \<Longrightarrow> nonneg_dims b"
  by (auto simp: valid_boxes_def map_filter_def split: if_splits dest: parse_box_string_nonneg)

lemma check_fit_inside:
  assumes "\<forall>b \<in> set boxes. nonneg_dims b" and "check_fit boxes c = Some ps" and "p \<in> set ps"
  shows "inside_container c p"
proof -
  have pk: "pack_recursive_helper (sorted_boxes boxes) c [] = Some ps"
    using assms(2) by (rule check_fit_SomeD)
  have nn: "\<forall>b \<in> set (sorted_boxes boxes). nonneg_dims b"
    using assms(1) by (simp add: sorted_boxes_def)
  have "\<forall>p \<in> set ps. inside_container c p"
    by (rule pack_inside[OF pk nn]) simp
  with assms(3) show ?thesis by simp
qed

lemma run_packing_fit_inside:
  assumes "s \<in> set (successful_fits (run_packing rules entries))" and "p \<in> set (fit_boxes s)"
  shows "inside_container (fit_container s) p"
proof -
  from run_packing_fit_checked[OF assms(1)] obtain comb where
    comb: "comb \<in> set (all_combinations (valid_boxes entries))"
    and cf: "check_fit comb (fit_container s) = Some (fit_boxes s)" by blast
  from all_combinations_mem[OF comb] have "set comb \<subseteq> set (valid_boxes entries)" by simp
  then have "\<forall>b \<in> set comb. nonneg_dims b" using valid_boxes_nonneg by blast
  from check_fit_inside[OF this cf assms(2)] show ?thesis .
qed

lemma check_fit_upper:
  assumes "check_fit boxes c = Some ps" and "p \<in> set ps"
  shows "pb_x p + pb_l p \<le> con_l c \<and> pb_y p + pb_w p \<le> con_w c \<and> pb_z p + pb_h p \<le> con_h c \<and>
      (pb_l p, pb_w p, pb_h p) \<in> set (permutations3 (box_l (pb_box p), box_w (pb_box p), box_h (pb_box p)))"
proof -
  have pk: "pack_recursive_helper (sorted_boxes boxes) c [] = Some ps"
    using assms(1) by (rule check_fit_SomeD)
  have ub: "\<forall>p \<in> set ps. pb_x p + pb_l p \<le> con_l c \<and>
      pb_y p + pb_w p \<le> con_w c \<and> pb_z p + pb_h p \<le> con_h c"
    by (rule pack_upper_bounds[OF pk]) simp
  have rot: "\<forall>p \<in> set ps. (pb_l p, pb_w p, pb_h p) \<in> set (rotations (pb_box p))"
    by (rule pack_rotations[OF pk]) simp
  from assms(2) ub rot show ?thesis by (simp add: set_rotations)
qed

section \<open>The claims\<close>

text \<open>
  Claim C1 (no-overlap invariant). In every placement list returned by \<open>check_fit\<close>, and
  so in the placement of every solution that \<open>run_packing\<close> records, no two distinct placed
  boxes have extents that intersect with positive volume on all three axes. A candidate
  that shares a boundary coordinate on some axis with each placed box is not reported as
  overlapping by \<open>check_overlap\<close>.
\<close>
theorem no_overlap_invariant:
  "(check_fit boxes_to_pack container = Some ps \<longrightarrow>
      (\<forall>i < length ps. \<forall>j < length ps. i \<noteq> j \<longrightarrow>
          \<not> positive_volume_overlap (ps ! i) (ps ! j))) \<and>
   (\<forall>s \<in> set (successful_fits (run_packing rules box_entries)).
      \<forall>i < length (fit_boxes s). \<forall>j < length (fit_boxes s). i \<noteq> j \<longrightarrow>
          \<not> positive_volume_overlap (fit_boxes s ! i) (fit_boxes s ! j)) \<and>
   ((\<forall>p \<in> set placed_boxes. touches p x y z l w h) \<longrightarrow>
      \<not> check_overlap placed_boxes x y z l w h)"
proof (intro conjI)
  show "check_fit boxes_to_pack container = Some ps \<longrightarrow>
      (\<forall>i < length ps. \<forall>j < length ps. i \<noteq> j \<longrightarrow>
          \<not> positive_volume_overlap (ps ! i) (ps ! j))"
    using check_fit_no_overlap by blast
next
  show "\<forall>s \<in> set (successful_fits (run_packing rules box_entries)).
      \<forall>i < length (fit_boxes s). \<forall>j < length (fit_boxes s). i \<noteq> j \<longrightarrow>
          \<not> positive_volume_overlap (fit_boxes s ! i) (fit_boxes s ! j)"
  proof (intro ballI allI impI)
    fix s i j
    assume s: "s \<in> set (successful_fits (run_packing rules box_entries))"
      and ij: "i < length (fit_boxes s)" "j < length (fit_boxes s)" "i \<noteq> j"
    from run_packing_fit_checked[OF s] obtain comb where
      "check_fit comb (fit_container s) = Some (fit_boxes s)" by blast
    from check_fit_no_overlap[OF this ij]
    show "\<not> positive_volume_overlap (fit_boxes s ! i) (fit_boxes s ! j)" .
  qed
next
  show "(\<forall>p \<in> set placed_boxes. touches p x y z l w h) \<longrightarrow>
      \<not> check_overlap placed_boxes x y z l w h"
    using touching_not_flagged by blast
qed

theorem no_overlap_invariant_witness:
  "check_fit [item_A, item_B] cube_300 = Some [placed_B, placed_A] \<and>
   \<not> positive_volume_overlap placed_B placed_A \<and>
   \<not> positive_volume_overlap placed_A placed_B \<and>
   fit_boxes (hd (successful_fits (run_packing (Some (900, 300, 300, 50, Finite 2)) form_AB))) =
     [placed_B, placed_A] \<and>
   touches placed_B 0 0 200 100 100 100 \<and>
   \<not> check_overlap [placed_B] 0 0 200 100 100 100"
proof -
  note inst = no_overlap_invariant[where boxes_to_pack = "[item_A, item_B]"
      and container = cube_300 and ps = "[placed_B, placed_A]"
      and rules = "Some (900, 300, 300, 50, Finite 2)" and box_entries = form_AB
      and placed_boxes = "[placed_B]" and x = 0 and y = 0 and z = 200
      and l = 100 and w = 100 and h = 100]
  have touch: "touches placed_B 0 0 200 100 100 100"
    by (simp add: touches_def placed_B_def)
  from inst check_fit_AB
  have pair: "\<forall>i < length [placed_B, placed_A]. \<forall>j < length [placed_B, placed_A]. i \<noteq> j \<longrightarrow>
      \<not> positive_volume_overlap ([placed_B, placed_A] ! i) ([placed_B, placed_A] ! j)"
    by blast
  from pair[rule_format, of 0 1] have ba: "\<not> positive_volume_overlap placed_B placed_A" by simp
  from pair[rule_format, of 1 0] have ab: "\<not> positive_volume_overlap placed_A placed_B" by simp
  from inst touch have nov: "\<not> check_overlap [placed_B] 0 0 200 100 100 100" by simp
  show ?thesis using check_fit_AB ba ab touch nov by (simp add: run_AB)
qed

text \<open>
  Claim C2 (containment invariant). Every placed box of a placement list returned by
  \<open>check_fit\<close> ends, on each axis, at or below the container's dimension, and its oriented
  dimensions are one of the orderings of its item's dimensions. When the items have no
  negative dimension (the data model has them positive), its origin is at or above zero on
  each axis as well, so the whole extent lies inside the container. Items read from the
  form are of that kind, so the placed boxes of every solution recorded by \<open>run_packing\<close>
  lie inside the solution's container.
\<close>
theorem containment_invariant:
  "(check_fit boxes_to_pack container = Some ps \<and> p \<in> set ps \<longrightarrow>
      pb_x p + pb_l p \<le> con_l container \<and> pb_y p + pb_w p \<le> con_w container \<and>
      pb_z p + pb_h p \<le> con_h container \<and>
      (pb_l p, pb_w p, pb_h p) \<in> set (permutations3 (box_l (pb_box p), box_w (pb_box p), box_h (pb_box p)))) \<and>
   ((\<forall>b \<in> set boxes_to_pack. nonneg_dims b) \<and>
    check_fit boxes_to_pack container = Some ps \<and> p \<in> set ps \<longrightarrow>
      0 \<le> pb_x p \<and> 0 \<le> pb_y p \<and> 0 \<le> pb_z p \<and> inside_container container p) \<and>
   (\<forall>s \<in> set (successful_fits (run_packing rules box_entries)).
      \<forall>q \<in> set (fit_boxes s).
        0 \<le> pb_x q \<and> 0 \<le> pb_y q \<and> 0 \<le> pb_z q \<and> inside_container (fit_container s) q)"
proof (intro conjI)
  show "check_fit boxes_to_pack container = Some ps \<and> p \<in> set ps \<longrightarrow>
      pb_x p + pb_l p \<le> con_l container \<and> pb_y p + pb_w p \<le> con_w container \<and>
      pb_z p + pb_h p \<le> con_h container \<and>
      (pb_l p, pb_w p, pb_h p) \<in> set (permutations3 (box_l (pb_box p), box_w (pb_box p), box_h (pb_box p)))"
    using check_fit_upper by blast
next
  show "(\<forall>b \<in> set boxes_to_pack. nonneg_dims b) \<and>
    check_fit boxes_to_pack container = Some ps \<and> p \<in> set ps \<longrightarrow>
      0 \<le> pb_x p \<and> 0 \<le> pb_y p \<and> 0 \<le> pb_z p \<and> inside_container container p"
  proof (rule impI)
    assume a: "(\<forall>b \<in> set boxes_to_pack. nonneg_dims b) \<and>
      check_fit boxes_to_pack container = Some ps \<and> p \<in> set ps"
    then have "inside_container container p" using check_fit_inside by blast
    then show "0 \<le> pb_x p \<and> 0 \<le> pb_y p \<and> 0 \<le> pb_z p \<and> inside_container container p"
      by (simp add: inside_container_def)
  qed
next
  show "\<forall>s \<in> set (successful_fits (run_packing rules box_entries)).
      \<forall>q \<in> set (fit_boxes s).
        0 \<le> pb_x q \<and> 0 \<le> pb_y q \<and> 0 \<le> pb_z q \<and> inside_container (fit_container s) q"
  proof (intro ballI)
    fix s q
    assume "s \<in> set (successful_fits (run_packing rules box_entries))" "q \<in> set (fit_boxes s)"
    then have "inside_container (fit_container s) q" by (rule run_packing_fit_inside)
    then show "0 \<le> pb_x q \<and> 0 \<le> pb_y q \<and> 0 \<le> pb_z q \<and> inside_container (fit_container s) q"
      by (simp add: inside_container_def)
  qed
qed

theorem containment_invariant_witness:
  "nonneg_dims item_A \<and> nonneg_dims item_B \<and>
   check_fit [item_A, item_B] cube_300 = Some [placed_B, placed_A] \<and>
   inside_container cube_300 placed_A \<and> 0 \<le> pb_z placed_A \<and>
   pb_z placed_A + pb_h placed_A \<le> con_h cube_300 \<and>
   fit_boxes (hd (successful_fits (run_packing (Some (900, 300, 300, 50, Finite 2)) form_AB))) =
     [placed_B, placed_A]"
proof -
  have nn: "\<forall>b \<in> set [item_A, item_B]. nonneg_dims b"
    by (simp add: nonneg_dims_def item_A_def item_B_def)
  have mem: "placed_A \<in> set [placed_B, placed_A]" by simp
  from containment_invariant[of "[item_A, item_B]" cube_300 "[placed_B, placed_A]" placed_A]
    nn check_fit_AB mem
  have "inside_container cube_300 placed_A" "0 \<le> pb_z placed_A"
    "pb_z placed_A + pb_h placed_A \<le> con_h cube_300" by blast+
  with nn check_fit_AB show ?thesis by (simp add: run_AB)
qed

text \<open>
  Claim C3 (weight invariant). Every solution recorded by \<open>run_packing\<close> has a total item
  weight that does not exceed \<open>max_weight\<close>, and \<open>check_fit\<close> is never called on a subset
  whose total weight exceeds it: such a subset leaves the state of the search untouched.
  A subset whose total weight equals the limit goes on to the container loop.
\<close>
theorem weight_invariant:
  "(\<forall>s \<in> set (successful_fits
        (run_packing (Some (total_sum, max_dim, min_dim, increment, max_weight)) box_entries)).
      \<not> int_gt_float (total_weight (map pb_box (fit_boxes s))) max_weight \<and>
      (\<forall>r. max_weight = Finite r \<longrightarrow>
         real_of_int (total_weight (map pb_box (fit_boxes s))) \<le> r)) \<and>
   (\<forall>(comb, c) \<in> set (fit_calls
        (run_packing (Some (total_sum, max_dim, min_dim, increment, max_weight)) box_entries)).
      \<not> int_gt_float (total_weight comb) max_weight) \<and>
   (int_gt_float (total_weight box_combination) max_weight \<longrightarrow>
      try_combination containers max_weight box_combination st = st) \<and>
   (real_of_int (total_weight box_combination) = limit \<longrightarrow>
      try_combination containers (Finite limit) box_combination st =
        container_loop box_combination (total_volume box_combination) containers st)"
proof (intro conjI)
  show "\<forall>s \<in> set (successful_fits
        (run_packing (Some (total_sum, max_dim, min_dim, increment, max_weight)) box_entries)).
      \<not> int_gt_float (total_weight (map pb_box (fit_boxes s))) max_weight \<and>
      (\<forall>r. max_weight = Finite r \<longrightarrow>
         real_of_int (total_weight (map pb_box (fit_boxes s))) \<le> r)"
  proof
    fix s
    assume "s \<in> set (successful_fits
        (run_packing (Some (total_sum, max_dim, min_dim, increment, max_weight)) box_entries))"
    from run_packing_fit_origin[OF this] obtain comb where
      w: "\<not> int_gt_float (total_weight comb) max_weight"
      and cf: "check_fit comb (fit_container s) = Some (fit_boxes s)" by blast
    from check_fit_total_weight[OF cf] w
    have nw: "\<not> int_gt_float (total_weight (map pb_box (fit_boxes s))) max_weight" by simp
    then have "\<forall>r. max_weight = Finite r \<longrightarrow>
         real_of_int (total_weight (map pb_box (fit_boxes s))) \<le> r" by auto
    with nw show "\<not> int_gt_float (total_weight (map pb_box (fit_boxes s))) max_weight \<and>
      (\<forall>r. max_weight = Finite r \<longrightarrow>
         real_of_int (total_weight (map pb_box (fit_boxes s))) \<le> r)" by blast
  qed
next
  show "\<forall>(comb, c) \<in> set (fit_calls
        (run_packing (Some (total_sum, max_dim, min_dim, increment, max_weight)) box_entries)).
      \<not> int_gt_float (total_weight comb) max_weight"
    using run_packing_call_origin by blast
next
  show "int_gt_float (total_weight box_combination) max_weight \<longrightarrow>
      try_combination containers max_weight box_combination st = st"
    by (simp add: try_combination_def total_weight_def)
next
  show "real_of_int (total_weight box_combination) = limit \<longrightarrow>
      try_combination containers (Finite limit) box_combination st =
        container_loop box_combination (total_volume box_combination) containers st"
    by (auto simp: try_combination_def total_weight_def total_volume_def)
qed

theorem weight_invariant_witness:
  "successful_fits (run_packing (Some (900, 300, 300, 50, Finite 2)) form_AB) =
     [\<lparr>fit_number = 1, fit_box_names = [''A'', ''B''],
       fit_container = cube_300, fit_boxes = [placed_B, placed_A]\<rparr>] \<and>
   total_weight (map pb_box [placed_B, placed_A]) = 2 \<and>
   \<not> int_gt_float (total_weight (map pb_box [placed_B, placed_A])) (Finite 2) \<and>
   int_gt_float (total_weight [item_A, item_B]) (Finite 1) \<and>
   try_combination [cube_300] (Finite 1) [item_A, item_B] empty_state = empty_state \<and>
   successful_fits (run_packing (Some (900, 300, 300, 50, Finite 1)) form_AB) = []"
proof -
  note inst = weight_invariant[where total_sum = 900 and max_dim = 300 and min_dim = 300
      and increment = 50 and max_weight = "Finite 2" and box_entries = form_AB]
  note inst1 = weight_invariant[where max_weight = "Finite 1"
      and box_combination = "[item_A, item_B]" and containers = "[cube_300]"
      and st = empty_state]
  have tw: "total_weight (map pb_box [placed_B, placed_A]) = 2"
    by (simp add: total_weight_def placed_A_def placed_B_def item_A_def item_B_def)
  have over: "int_gt_float (total_weight [item_A, item_B]) (Finite 1)"
    by (simp add: total_weight_def item_A_def item_B_def)
  from inst have "\<forall>s \<in> set (successful_fits
        (run_packing (Some (900, 300, 300, 50, Finite 2)) form_AB)).
      \<not> int_gt_float (total_weight (map pb_box (fit_boxes s))) (Finite 2)" by blast
  then have ok: "\<not> int_gt_float (total_weight (map pb_box [placed_B, placed_A])) (Finite 2)"
    by (simp add: run_AB)
  from inst1 over
  have rej: "try_combination [cube_300] (Finite 1) [item_A, item_B] empty_state = empty_state"
    by blast
  show ?thesis using tw over ok rej by (simp add: run_AB run_AB_overweight)
qed

text \<open>
  Claim C4 (the generated containers). For a positive increment, \<open>generate_containers\<close>
  returns exactly the containers \<open>(l, w, h)\<close> with \<open>l \<le> w \<le> h\<close>, each component in the
  progression from \<open>min_dim\<close> in steps of \<open>increment\<close> capped at \<open>max_dim\<close>, and
  \<open>l + w + h \<le> total_sum\<close>. No container occurs twice, two containers with the same
  multiset of dimensions are the same container, and the volume field is \<open>l * w * h\<close>.
\<close>
theorem generate_containers_exact:
  assumes "0 < increment"
  shows "set (generate_containers total_sum max_dim min_dim increment) =
           {\<lparr>con_l = l, con_w = w, con_h = h, con_volume = l * w * h\<rparr> | l w h.
              l \<le> w \<and> w \<le> h \<and>
              l \<in> progression min_dim max_dim increment \<and>
              w \<in> progression min_dim max_dim increment \<and>
              h \<in> progression min_dim max_dim increment \<and> l + w + h \<le> total_sum} \<and>
         distinct (generate_containers total_sum max_dim min_dim increment) \<and>
         (\<forall>c \<in> set (generate_containers total_sum max_dim min_dim increment).
          \<forall>c' \<in> set (generate_containers total_sum max_dim min_dim increment).
            mset (dims_of c) = mset (dims_of c') \<longrightarrow> c = c') \<and>
         (\<forall>c \<in> set (generate_containers total_sum max_dim min_dim increment).
            con_volume c = con_l c * con_w c * con_h c)"
proof (intro conjI)
  show "set (generate_containers total_sum max_dim min_dim increment) =
           {\<lparr>con_l = l, con_w = w, con_h = h, con_volume = l * w * h\<rparr> | l w h.
              l \<le> w \<and> w \<le> h \<and>
              l \<in> progression min_dim max_dim increment \<and>
              w \<in> progression min_dim max_dim increment \<and>
              h \<in> progression min_dim max_dim increment \<and> l + w + h \<le> total_sum}"
    by (rule set_eqI) (simp add: generated_container[OF assms])
next
  show "distinct (generate_containers total_sum max_dim min_dim increment)"
    by (rule distinct_generate_containers)
next
  show "\<forall>c \<in> set (generate_containers total_sum max_dim min_dim increment).
          \<forall>c' \<in> set (generate_containers total_sum max_dim min_dim increment).
            mset (dims_of c) = mset (dims_of c') \<longrightarrow> c = c'"
  proof (intro ballI impI)
    fix c c'
    assume "c \<in> set (generate_containers total_sum max_dim min_dim increment)"
      and "c' \<in> set (generate_containers total_sum max_dim min_dim increment)"
      and m: "mset (dims_of c) = mset (dims_of c')"
    then obtain l w h l' w' h' where
      c: "c = \<lparr>con_l = l, con_w = w, con_h = h, con_volume = l * w * h\<rparr>" "l \<le> w" "w \<le> h"
      and c': "c' = \<lparr>con_l = l', con_w = w', con_h = h', con_volume = l' * w' * h'\<rparr>" "l' \<le> w'" "w' \<le> h'"
      unfolding generated_container[OF assms] by blast
    from m have "mset [l, w, h] = mset [l', w', h']" by (simp add: dims_of_def c c')
    from sorted_triple_unique[OF c(2,3) c'(2,3) this] show "c = c'" by (simp add: c c')
  qed
next
  show "\<forall>c \<in> set (generate_containers total_sum max_dim min_dim increment).
            con_volume c = con_l c * con_w c * con_h c"
    by (auto simp: generated_container[OF assms])
qed

theorem generate_containers_exact_witness:
  "(0::int) < 50 \<and>
   \<lparr>con_l = 300, con_w = 300, con_h = 300, con_volume = 27000000\<rparr>
      \<in> set (generate_containers 900 600 50 50) \<and>
   \<lparr>con_l = 300, con_w = 300, con_h = 350, con_volume = 31500000\<rparr>
      \<notin> set (generate_containers 900 600 50 50) \<and>
   \<lparr>con_l = 350, con_w = 300, con_h = 300, con_volume = 31500000\<rparr>
      \<notin> set (generate_containers 900 600 50 50) \<and>
   distinct (generate_containers 900 600 50 50)"
proof -
  have pos: "(0::int) < 50" by simp
  note inst = generate_containers_exact[OF pos, of 900 600 50]
  from inst have eq: "set (generate_containers 900 600 50 50) =
           {\<lparr>con_l = l, con_w = w, con_h = h, con_volume = l * w * h\<rparr> | l w h.
              l \<le> w \<and> w \<le> h \<and>
              l \<in> progression 50 600 50 \<and>
              w \<in> progression 50 600 50 \<and>
              h \<in> progression 50 600 50 \<and> l + w + h \<le> 900}"
    and dist: "distinct (generate_containers 900 600 50 50)" by blast+
  have "(300::int) \<le> 300 \<and> (300::int) \<le> 300 \<and> (300::int) + 300 + 300 \<le> 900 \<and>
      \<lparr>con_l = 300, con_w = 300, con_h = 300, con_volume = 27000000\<rparr> =
      \<lparr>con_l = 300, con_w = 300, con_h = 300, con_volume = 300 * 300 * 300\<rparr>" by simp
  with step_300 have a: "\<lparr>con_l = 300, con_w = 300, con_h = 300, con_volume = 27000000\<rparr>
      \<in> set (generate_containers 900 600 50 50)"
    unfolding eq by blast
  have b: "\<lparr>con_l = 300, con_w = 300, con_h = 350, con_volume = 31500000\<rparr>
      \<notin> set (generate_containers 900 600 50 50)"
    unfolding eq by simp
  have c: "\<lparr>con_l = 350, con_w = 300, con_h = 300, con_volume = 31500000\<rparr>
      \<notin> set (generate_containers 900 600 50 50)"
    unfolding eq by simp
  from pos a b c dist show ?thesis by blast
qed

text \<open>
  Claim C5 (no containers). With \<open>increment \<le> 0\<close> the generator returns the empty list; and
  whenever the generated list is empty, \<open>run_packing\<close> logs the no-containers error and
  returns with no solution, no call of \<open>check_fit\<close> and no subset enumerated.
\<close>
theorem no_containers_aborts:
  "(increment \<le> 0 \<longrightarrow> generate_containers total_sum max_dim min_dim increment = []) \<and>
   (generate_containers total_sum max_dim min_dim increment = [] \<longrightarrow>
      run_packing (Some (total_sum, max_dim, min_dim, increment, max_weight)) box_entries =
        \<lparr>log = [Starting_packing, Error_no_containers], successful_fits = [],
         found_solutions = 0, fit_calls = []\<rparr>)"
  by (simp add: generate_containers_def run_packing_def)

theorem no_containers_aborts_witness:
  "(0::int) \<le> 0 \<and> generate_containers 900 600 50 0 = [] \<and>
   generate_containers 10 5 5 1 = [] \<and>
   successful_fits (run_packing (Some (900, 600, 50, 0, Finite 2)) form_AB) = [] \<and>
   fit_calls (run_packing (Some (900, 600, 50, 0, Finite 2)) form_AB) = [] \<and>
   log (run_packing (Some (10, 5, 5, 1, Finite 2)) form_AB) =
     [Starting_packing, Error_no_containers] \<and>
   successful_fits (run_packing (Some (10, 5, 5, 1, Finite 2)) form_AB) = []"
proof -
  note i1 = no_containers_aborts[of 0 900 600 50 "Finite 2" form_AB]
  note i2 = no_containers_aborts[of 1 10 5 5 "Finite 2" form_AB]
  from i1 have e: "generate_containers 900 600 50 0 = []" by simp
  with i1 have r1: "run_packing (Some (900, 600, 50, 0, Finite 2)) form_AB =
        \<lparr>log = [Starting_packing, Error_no_containers], successful_fits = [],
         found_solutions = 0, fit_calls = []\<rparr>" by blast
  from i2 no_triple_within_10 have r2: "run_packing (Some (10, 5, 5, 1, Finite 2)) form_AB =
        \<lparr>log = [Starting_packing, Error_no_containers], successful_fits = [],
         found_solutions = 0, fit_calls = []\<rparr>" by blast
  show ?thesis by (simp add: e no_triple_within_10 r1 r2)
qed

text \<open>
  Claim C6 (the early exit is an optimization). \<open>generate_containers\<close>, which leaves the scan
  of \<open>h\<close> at the first sum above \<open>total_sum\<close>, returns the same collection of containers
  as the naive triple loop that tests every \<open>(l, w, h)\<close>.
\<close>
theorem break_is_optimization:
  "set (generate_containers total_sum max_dim min_dim increment) =
     set (generate_containers_naive total_sum max_dim min_dim increment) \<and>
   length (generate_containers total_sum max_dim min_dim increment) =
     length (generate_containers_naive total_sum max_dim min_dim increment) \<and>
   distinct (generate_containers_naive total_sum max_dim min_dim increment)"
proof (cases "0 < increment")
  case True
  have "generate_containers total_sum max_dim min_dim increment =
      generate_containers_naive total_sum max_dim min_dim increment"
    by (simp only: generate_containers_eq[OF True] generate_containers_naive_eq[OF True])
  then show ?thesis using distinct_generate_containers[of total_sum max_dim min_dim increment]
    by simp
next
  case False
  then show ?thesis by (simp add: generate_containers_def generate_containers_naive_def)
qed

theorem break_is_optimization_witness:
  "set (generate_containers 6 3 1 1) =
     set (map container_of [(1, 1, 1), (1, 1, 2), (1, 1, 3), (1, 2, 2), (1, 2, 3), (2, 2, 2)]) \<and>
   length (generate_containers 6 3 1 1) = 6"
  using break_is_optimization[of 6 3 1 1] naive_within_6 by simp

text \<open>
  Claim C7 (an item that fits in no orientation). If some box of the input list has no
  ordering \<open>(l, w, h)\<close> of its dimensions with \<open>l \<le> container.l\<close>, \<open>w \<le> container.w\<close> and
  \<open>h \<le> container.h\<close>, then \<open>check_fit\<close> returns \<open>None\<close>, whatever the other boxes are, and the
  recursive placement search is not started.
\<close>
theorem check_fit_rejects_unfittable:
  assumes "b \<in> set boxes_to_pack"
    and "\<forall>(l, w, h) \<in> set (permutations3 (box_l b, box_w b, box_h b)).
           \<not> (l \<le> con_l container \<and> w \<le> con_w container \<and> h \<le> con_h container)"
  shows "check_fit boxes_to_pack container = None \<and>
         check_fit_traced boxes_to_pack container = (None, False)"
proof -
  from assms(2) have "\<not> can_fit_at_all b container"
    by (simp only: can_fit_at_all_def list_ex_iff set_rotations) blast
  moreover from assms(1) have "b \<in> set (sorted_boxes boxes_to_pack)"
    by (simp add: sorted_boxes_def)
  ultimately have "list_ex (\<lambda>b. \<not> can_fit_at_all b container) (sorted_boxes boxes_to_pack)"
    unfolding list_ex_iff by blast
  then show ?thesis by (simp add: check_fit_def check_fit_traced_def)
qed

theorem check_fit_rejects_unfittable_witness:
  "item_long \<in> set [item_A, item_long, item_B] \<and>
   check_fit [item_A, item_long, item_B] cube_300 = None \<and>
   check_fit_traced [item_A, item_long, item_B] cube_300 = (None, False)"
proof -
  have mem: "item_long \<in> set [item_A, item_long, item_B]" by simp
  have unfit: "\<forall>(l, w, h) \<in> set (permutations3 (box_l item_long, box_w item_long, box_h item_long)).
      \<not> (l \<le> con_l cube_300 \<and> w \<le> con_w cube_300 \<and> h \<le> con_h cube_300)"
    by (simp add: permutations3_def item_long_def cube_300_def)
  from check_fit_rejects_unfittable[OF mem unfit] mem show ?thesis by simp
qed

text \<open>
  Claim C8 (at least two items). \<open>run_packing\<close> calls \<open>check_fit\<close> on subsets of two or more
  items only, so every recorded solution places at least two items. With fewer than two
  valid items the run ends in an error message, with no solution, no call of \<open>check_fit\<close>
  and no subset size announced; when containers were generated, the message is the one
  asking for two boxes.
\<close>
theorem search_needs_two_items:
  "(\<forall>(comb, c) \<in> set (fit_calls (run_packing rules box_entries)). 2 \<le> length comb) \<and>
   (\<forall>s \<in> set (successful_fits (run_packing rules box_entries)).
      2 \<le> length (fit_boxes s) \<and> 2 \<le> length (fit_box_names s)) \<and>
   (length (valid_boxes box_entries) < 2 \<longrightarrow>
      successful_fits (run_packing rules box_entries) = [] \<and>
      found_solutions (run_packing rules box_entries) = 0 \<and>
      fit_calls (run_packing rules box_entries) = [] \<and>
      last (log (run_packing rules box_entries)) \<in>
        {Error_invalid_numeric, Error_no_containers, Error_need_two_boxes} \<and>
      (\<forall>k. Checking_combinations k \<notin> set (log (run_packing rules box_entries)))) \<and>
   (length (valid_boxes box_entries) < 2 \<and>
    generate_containers total_sum max_dim min_dim increment \<noteq> [] \<longrightarrow>
      last (log (run_packing (Some (total_sum, max_dim, min_dim, increment, max_weight))
                   box_entries)) = Error_need_two_boxes)"
proof (intro conjI)
  show "\<forall>(comb, c) \<in> set (fit_calls (run_packing rules box_entries)). 2 \<le> length comb"
    using run_packing_call_size by blast
next
  show "\<forall>s \<in> set (successful_fits (run_packing rules box_entries)).
      2 \<le> length (fit_boxes s) \<and> 2 \<le> length (fit_box_names s)"
  proof
    fix s
    assume s: "s \<in> set (successful_fits (run_packing rules box_entries))"
    show "2 \<le> length (fit_boxes s) \<and> 2 \<le> length (fit_box_names s)"
    proof (cases rules)
      case None
      with s show ?thesis by (simp add: run_packing_no_rules)
    next
      case (Some r)
      obtain ts mx mn inc mw where r: "r = (ts, mx, mn, inc, mw)" by (cases r) auto
      from s Some r run_packing_fit_origin[of s ts mx mn inc mw box_entries]
      obtain comb where comb: "comb \<in> set (all_combinations (valid_boxes box_entries))"
        and cf: "check_fit comb (fit_container s) = Some (fit_boxes s)"
        and nm: "fit_box_names s = map box_name comb" by blast
      from all_combinations_mem[OF comb] have "2 \<le> length comb" by simp
      with check_fit_length[OF cf] nm show ?thesis by simp
    qed
  qed
next
  show "length (valid_boxes box_entries) < 2 \<longrightarrow>
      successful_fits (run_packing rules box_entries) = [] \<and>
      found_solutions (run_packing rules box_entries) = 0 \<and>
      fit_calls (run_packing rules box_entries) = [] \<and>
      last (log (run_packing rules box_entries)) \<in>
        {Error_invalid_numeric, Error_no_containers, Error_need_two_boxes} \<and>
      (\<forall>k. Checking_combinations k \<notin> set (log (run_packing rules box_entries)))"
  proof (rule impI)
    assume few: "length (valid_boxes box_entries) < 2"
    let ?goal = "successful_fits (run_packing rules box_entries) = [] \<and>
      found_solutions (run_packing rules box_entries) = 0 \<and>
      fit_calls (run_packing rules box_entries) = [] \<and>
      last (log (run_packing rules box_entries)) \<in>
        {Error_invalid_numeric, Error_no_containers, Error_need_two_boxes} \<and>
      (\<forall>k. Checking_combinations k \<notin> set (log (run_packing rules box_entries)))"
    show ?goal
    proof (cases rules)
      case None
      then show ?thesis by (simp add: run_packing_no_rules)
    next
      case (Some r)
      obtain ts mx mn inc mw where r: "r = (ts, mx, mn, inc, mw)" by (cases r) auto
      show ?thesis
      proof (cases "generate_containers ts mx mn inc = []")
        case True
        then show ?thesis by (simp add: Some r run_packing_no_containers)
      next
        case False
        have "\<forall>k. Checking_combinations k \<notin>
            set (snd (collect_boxes box_entries ([], [Starting_packing])))"
          using collect_boxes_log[of box_entries "[]" "[Starting_packing]"] by auto
        then show ?thesis
          by (simp add: Some r run_packing_too_few[OF few False])
      qed
    qed
  qed
next
  show "length (valid_boxes box_entries) < 2 \<and>
    generate_containers total_sum max_dim min_dim increment \<noteq> [] \<longrightarrow>
      last (log (run_packing (Some (total_sum, max_dim, min_dim, increment, max_weight))
                   box_entries)) = Error_need_two_boxes"
    by (simp add: run_packing_too_few)
qed

theorem search_needs_two_items_witness:
  "length (valid_boxes [hd form_AB]) < 2 \<and>
   run_packing (Some (900, 300, 300, 50, Finite 2)) [hd form_AB] =
     \<lparr>log = [Starting_packing, Error_need_two_boxes],
      successful_fits = [], found_solutions = 0, fit_calls = []\<rparr> \<and>
   fit_calls (run_packing (Some (900, 300, 300, 50, Finite 2)) form_AB) =
     [([item_A, item_B], cube_300)] \<and>
   2 \<le> length [item_A, item_B] \<and>
   2 \<le> length (fit_boxes (hd (successful_fits
          (run_packing (Some (900, 300, 300, 50, Finite 2)) form_AB))))"
proof -
  note inst = search_needs_two_items[where rules = "Some (900, 300, 300, 50, Finite 2)"
      and box_entries = form_AB]
  note inst1 = search_needs_two_items[where rules = "Some (900, 300, 300, 50, Finite 2)"
      and box_entries = "[hd form_AB]"]
  have few: "length (valid_boxes [hd form_AB]) < 2" by (simp add: valid_boxes_one)
  from inst1 few have "fit_calls (run_packing (Some (900, 300, 300, 50, Finite 2)) [hd form_AB]) = []"
    by blast
  from inst have "\<forall>s \<in> set (successful_fits (run_packing (Some (900, 300, 300, 50, Finite 2)) form_AB)).
      2 \<le> length (fit_boxes s)" by blast
  then have two: "2 \<le> length (fit_boxes (hd (successful_fits
          (run_packing (Some (900, 300, 300, 50, Finite 2)) form_AB))))"
    by (simp add: run_AB)
  show ?thesis using few two by (simp add: run_one_item run_AB)
qed

text \<open>
  Claim C9 (first fit over the containers). The solutions of a search are, in enumeration
  order of the subsets, one per subset within the weight limit for which some container of
  sufficient volume yields a placement, with the first such container of the list; the calls
  of \<open>check_fit\<close> for a subset are the containers of sufficient volume up to and including
  that first one. A subset without such a container adds no solution and the enumeration
  goes on. Every call is on a container whose volume is at least the subset's total volume.
\<close>
theorem first_fit_over_containers:
  "successful_fits (search_loops containers max_weight input_boxes st) =
     successful_fits st @
     number_fits (found_solutions st)
       (accepted containers max_weight (all_combinations input_boxes)) \<and>
   fit_calls (search_loops containers max_weight input_boxes st) =
     fit_calls st @ attempted containers max_weight (all_combinations input_boxes) \<and>
   (\<forall>(comb, c) \<in> set (attempted containers max_weight (all_combinations input_boxes)).
      total_volume comb \<le> con_volume c) \<and>
   successful_fits
     (run_packing (Some (total_sum, max_dim, min_dim, increment, max_weight)) box_entries) =
     number_fits 0
       (accepted (generate_containers total_sum max_dim min_dim increment) max_weight
          (all_combinations (valid_boxes box_entries))) \<and>
   fit_calls
     (run_packing (Some (total_sum, max_dim, min_dim, increment, max_weight)) box_entries) =
     attempted (generate_containers total_sum max_dim min_dim increment) max_weight
       (all_combinations (valid_boxes box_entries))"
proof (intro conjI)
  show "\<forall>(comb, c) \<in> set (attempted containers max_weight (all_combinations input_boxes)).
      total_volume comb \<le> con_volume c"
    using attempted_mem by blast
qed (simp_all only: search_loops_fits search_loops_calls run_packing_fits run_packing_calls)

theorem first_fit_over_containers_witness:
  "successful_fits
     (search_loops [tiny_100, flat_150, cube_300, cube_400] (Finite 2) [item_A, item_B] empty_state) =
     [\<lparr>fit_number = 1, fit_box_names = [''A'', ''B''],
       fit_container = cube_300, fit_boxes = [placed_B, placed_A]\<rparr>] \<and>
   number_fits 0 (accepted [tiny_100, flat_150, cube_300, cube_400] (Finite 2)
       (all_combinations [item_A, item_B])) =
     [\<lparr>fit_number = 1, fit_box_names = [''A'', ''B''],
       fit_container = cube_300, fit_boxes = [placed_B, placed_A]\<rparr>] \<and>
   attempted [tiny_100, flat_150, cube_300, cube_400] (Finite 2) (all_combinations [item_A, item_B]) =
     [([item_A, item_B], flat_150), ([item_A, item_B], cube_300)] \<and>
   total_volume [item_A, item_B] \<le> con_volume flat_150"
proof -
  note inst = first_fit_over_containers[where containers = "[tiny_100, flat_150, cube_300, cube_400]"
      and max_weight = "Finite 2" and input_boxes = "[item_A, item_B]" and st = empty_state]
  from inst have
    f: "successful_fits
     (search_loops [tiny_100, flat_150, cube_300, cube_400] (Finite 2) [item_A, item_B] empty_state) =
     successful_fits empty_state @ number_fits (found_solutions empty_state)
       (accepted [tiny_100, flat_150, cube_300, cube_400] (Finite 2) (all_combinations [item_A, item_B]))"
    and c: "fit_calls
     (search_loops [tiny_100, flat_150, cube_300, cube_400] (Finite 2) [item_A, item_B] empty_state) =
     fit_calls empty_state @
       attempted [tiny_100, flat_150, cube_300, cube_400] (Finite 2) (all_combinations [item_A, item_B])"
    and v: "\<forall>(comb, c) \<in> set (attempted [tiny_100, flat_150, cube_300, cube_400] (Finite 2)
        (all_combinations [item_A, item_B])). total_volume comb \<le> con_volume c"
    by blast+
  from f have f': "number_fits 0 (accepted [tiny_100, flat_150, cube_300, cube_400] (Finite 2)
       (all_combinations [item_A, item_B])) =
     [\<lparr>fit_number = 1, fit_box_names = [''A'', ''B''],
       fit_container = cube_300, fit_boxes = [placed_B, placed_A]\<rparr>]"
    by (simp add: search_four_containers empty_state_fields)
  from c have c': "attempted [tiny_100, flat_150, cube_300, cube_400] (Finite 2)
       (all_combinations [item_A, item_B]) =
     [([item_A, item_B], flat_150), ([item_A, item_B], cube_300)]"
    by (simp add: search_four_containers empty_state_fields)
  from v have v': "total_volume [item_A, item_B] \<le> con_volume flat_150"
    unfolding c' by simp
  show ?thesis using f' c' v' by (simp add: search_four_containers)
qed

text \<open>
  Claim C10 (a placement covers the input). When \<open>check_fit\<close> returns a placement list, the
  list has one placed box per input box: the lengths agree and the boxes referred to are
  the input boxes as a multiset (in the order of descending volume). For the empty input the
  result is the empty placement list, not \<open>None\<close>.
\<close>
theorem check_fit_places_every_box:
  "(check_fit boxes_to_pack container = Some ps \<longrightarrow>
      length ps = length boxes_to_pack \<and>
      mset (map pb_box ps) = mset boxes_to_pack \<and>
      map pb_box ps = sorted_boxes boxes_to_pack) \<and>
   check_fit [] container = Some []"
proof (intro conjI impI)
  assume a: "check_fit boxes_to_pack container = Some ps"
  from check_fit_boxes[OF a] have m: "map pb_box ps = sorted_boxes boxes_to_pack" .
  then have "length (map pb_box ps) = length (sorted_boxes boxes_to_pack)" by simp
  then show "length ps = length boxes_to_pack" by (simp add: sorted_boxes_def)
  from m show "mset (map pb_box ps) = mset boxes_to_pack"
    by (simp only: mset_sorted_boxes)
  from m show "map pb_box ps = sorted_boxes boxes_to_pack" .
next
  show "check_fit [] container = Some []"
    by (simp add: check_fit_def sorted_boxes_def)
qed

theorem check_fit_places_every_box_witness:
  "check_fit [item_A, item_B] cube_300 = Some [placed_B, placed_A] \<and>
   length [placed_B, placed_A] = length [item_A, item_B] \<and>
   mset (map pb_box [placed_B, placed_A]) = mset [item_A, item_B] \<and>
   check_fit [] cube_300 = Some []"
proof -
  from check_fit_places_every_box[of "[item_A, item_B]" cube_300 "[placed_B, placed_A]"]
    check_fit_AB
  have "length [placed_B, placed_A] = length [item_A, item_B] \<and>
     mset (map pb_box [placed_B, placed_A]) = mset [item_A, item_B] \<and>
     check_fit [] cube_300 = Some []" by blast
  with check_fit_AB show ?thesis by blast
qed

end
